theory Spec2Isabelle
  imports Complex_Main "HOL-Library.Word"
begin

section \<open>The rules engine (engine.js)\<close>

text \<open>
  JavaScript numbers are modelled as mathematical integers (\<open>int\<close>): every state
  built by \<open>initStandard\<close> and \<open>playMove\<close> holds integers far below \<open>2^53\<close>, where
  double arithmetic is exact. Array indices and side numbers are \<open>nat\<close>. The two
  nested arrays \<open>pits[side][i]\<close> and \<open>store[side]\<close> are lists, read with \<open>!\<close> and
  written with list update.
\<close>

subsection \<open>Rules configuration\<close>

datatype CaptureRule = KALAH | NONE

record Rules =
  pitsPerSide :: nat
  seedsPerPit :: nat
  extraTurnOnStore :: bool
  sweepOnGameEnd :: bool
  captureRule :: CaptureRule
  allowMoveFromEmpty :: bool

datatype ConfigError = PitsPerSideMustBePositiveInt | SeedsPerPitMustBeNonnegativeInt
  | Pits0WrongLength | Pits1WrongLength

text \<open>
  \<open>makeRules\<close> throws unless \<open>pitsPerSide\<close> is a positive integer and
  \<open>seedsPerPit\<close> a non-negative one; the record it returns therefore holds naturals.
\<close>

definition makeRules :: "int \<Rightarrow> int \<Rightarrow> bool \<Rightarrow> bool \<Rightarrow> CaptureRule \<Rightarrow> bool \<Rightarrow> ConfigError + Rules" where
  "makeRules pps spp extra sweep cap allowEmpty =
     (if pps \<le> 0 then Inl PitsPerSideMustBePositiveInt
      else if spp < 0 then Inl SeedsPerPitMustBeNonnegativeInt
      else Inr \<lparr> pitsPerSide = nat pps, seedsPerPit = nat spp, extraTurnOnStore = extra,
                 sweepOnGameEnd = sweep, captureRule = cap, allowMoveFromEmpty = allowEmpty \<rparr>)"

subsection \<open>Game state\<close>

text \<open>
  A state object has the properties \<open>pits\<close>, \<open>store\<close> and \<open>toMove\<close>. The search
  module also reads a property \<open>terminal\<close> of a state object, which the user interface
  attaches to its own state and which no engine function sets: it is modelled as an
  optional field (\<open>None\<close> is JavaScript's \<open>undefined\<close>). The element type of the pit
  arrays is a parameter, since \<open>initFromArrays\<close> copies the arrays without looking
  at their elements; the engine itself works on \<open>int GameState\<close>.
\<close>

record 'a GameState =
  pits :: "'a list list"
  store :: "int list"
  toMove :: nat
  terminal :: "bool option"

definition initStandard :: "Rules \<Rightarrow> int \<Rightarrow> int GameState" where
  "initStandard rules toMoveArg =
     (let n = pitsPerSide rules in
      \<lparr> pits = [replicate n (int (seedsPerPit rules)), replicate n (int (seedsPerPit rules))],
        store = [0, 0],
        toMove = (if toMoveArg = 1 then 1 else 0),
        terminal = None \<rparr>)"

text \<open>
  \<open>x | 0\<close> is ECMAScript's ToInt32: truncate toward zero, then wrap modulo \<open>2^32\<close>
  into the signed 32-bit range. A finite JavaScript number is a rational.
\<close>

definition truncRat :: "rat \<Rightarrow> int" where
  "truncRat x = (if 0 \<le> x then \<lfloor>x\<rfloor> else \<lceil>x\<rceil>)"

definition toInt32 :: "rat \<Rightarrow> int" where
  "toInt32 x = sint (word_of_int (truncRat x) :: 32 word)"

definition initFromArrays :: "Rules \<Rightarrow> 'a list \<Rightarrow> 'a list \<Rightarrow> rat \<Rightarrow> rat \<Rightarrow> int \<Rightarrow> ConfigError + 'a GameState" where
  "initFromArrays rules pits0 pits1 store0 store1 toMoveArg =
     (let n = pitsPerSide rules in
      if length pits0 \<noteq> n then Inl Pits0WrongLength
      else if length pits1 \<noteq> n then Inl Pits1WrongLength
      else Inr \<lparr> pits = [pits0, pits1],
                 store = [toInt32 store0, toInt32 store1],
                 toMove = (if toMoveArg = 1 then 1 else 0),
                 terminal = None \<rparr>)"

text \<open>\<open>cloneState\<close> builds a fresh object with three properties only.\<close>

definition cloneState :: "'a GameState \<Rightarrow> 'a GameState" where
  "cloneState st =
     \<lparr> pits = [pits st ! 0, pits st ! 1],
       store = [store st ! 0, store st ! 1],
       toMove = toMove st,
       terminal = None \<rparr>"

text \<open>The assignments \<open>ns.pits[side][i] = v\<close> and \<open>ns.store[side] += v\<close>.\<close>

definition setPit :: "'a GameState \<Rightarrow> nat \<Rightarrow> nat \<Rightarrow> 'a \<Rightarrow> 'a GameState" where
  "setPit ns side i v = ns\<lparr> pits := (pits ns)[side := (pits ns ! side)[i := v]] \<rparr>"

definition addStore :: "'a GameState \<Rightarrow> nat \<Rightarrow> int \<Rightarrow> 'a GameState" where
  "addStore ns side v = ns\<lparr> store := (store ns)[side := store ns ! side + v] \<rparr>"

definition isTerminal :: "int GameState \<Rightarrow> Rules \<Rightarrow> bool" where
  "isTerminal st rules =
     (let n = pitsPerSide rules;
          (z0, z1) = fold (\<lambda>i (z0, z1).
                        (if pits st ! 0 ! i \<noteq> 0 then False else z0,
                         if pits st ! 1 ! i \<noteq> 0 then False else z1))
                      [0..<n] (True, True)
      in z0 \<or> z1)"

definition sweepSide :: "nat \<Rightarrow> nat \<Rightarrow> int GameState \<Rightarrow> int GameState" where
  "sweepSide n side ns =
     (let (sweep, ns') = fold (\<lambda>i (sweep, ns). (sweep + pits ns ! side ! i, setPit ns side i 0))
                           [0..<n] (0, ns)
      in addStore ns' side sweep)"

definition finalizeIfTerminal :: "int GameState \<Rightarrow> Rules \<Rightarrow> int GameState" where
  "finalizeIfTerminal st rules =
     (if \<not> isTerminal st rules then st
      else if \<not> sweepOnGameEnd rules then st
      else fold (sweepSide (pitsPerSide rules)) [0, 1] (cloneState st))"

definition getValidMoves :: "int GameState \<Rightarrow> Rules \<Rightarrow> nat list" where
  "getValidMoves st rules =
     (let p = toMove st; n = pitsPerSide rules in
      fold (\<lambda>i moves.
              if \<not> allowMoveFromEmpty rules \<and> pits st ! p ! i = 0 then moves
              else moves @ [i])
           [0..<n] [])"

subsection \<open>Sowing\<close>

text \<open>A drop location: \<open>{kind: "pit", side, index}\<close> or \<open>{kind: "store", side}\<close>.\<close>

datatype Loc = PitLoc nat nat | StoreLoc nat

text \<open>The ring position \<open>ringPos\<close> as a drop location, seen from the side \<open>who\<close>.\<close>

definition ringLoc :: "nat \<Rightarrow> nat \<Rightarrow> nat \<Rightarrow> Loc" where
  "ringLoc n who ringPos =
     (if ringPos < n then PitLoc who ringPos
      else if ringPos = n then StoreLoc who
      else PitLoc (1 - who) (ringPos - (n + 1)))"

function sowLoop :: "nat \<Rightarrow> nat \<Rightarrow> int \<Rightarrow> nat \<Rightarrow> Loc list" where
  "sowLoop n who hand ringPos =
     (if hand > 0
      then ringLoc n who ringPos # sowLoop n who (hand - 1) ((ringPos + 1) mod (2 * n + 1))
      else [])"
  by pat_completeness auto
termination
  by (relation "measure (\<lambda>(n, who, hand, ringPos). nat hand)") auto

declare sowLoop.simps [simp del]

definition sowPath :: "int GameState \<Rightarrow> Rules \<Rightarrow> nat \<Rightarrow> nat \<Rightarrow> Loc list" where
  "sowPath st rules who p =
     (let n = pitsPerSide rules; hand = pits st ! who ! p in
      if hand \<le> 0 then []
      else sowLoop n who hand ((p + 1) mod (2 * n + 1)))"

subsection \<open>Applying a move\<close>

datatype MoveError = PitIndexOutOfRange | EmptyPit

record CaptureInfo =
  happened :: bool
  pit :: "nat option"
  oppPit :: "nat option"
  captured :: "int option"

record MoveResult =
  state :: "int GameState"
  path :: "Loc list"
  mover :: nat
  pitIndex :: int
  extraTurn :: bool
  capture :: CaptureInfo
  terminal :: bool

text \<open>One iteration of the loop that performs the sowing: the state and \<open>last\<close>.\<close>

fun sowStep :: "Loc \<Rightarrow> int GameState \<times> Loc option \<Rightarrow> int GameState \<times> Loc option" where
  "sowStep (StoreLoc side) (ns, lastLoc) = (addStore ns side 1, Some (StoreLoc side))"
| "sowStep (PitLoc side i) (ns, lastLoc) = (setPit ns side i (pits ns ! side ! i + 1), Some (PitLoc side i))"

definition noCapture :: CaptureInfo where
  "noCapture = \<lparr> happened = False, pit = None, oppPit = None, captured = None \<rparr>"

text \<open>The block "Capture (standard Kalah)".\<close>

definition captureStep :: "Rules \<Rightarrow> nat \<Rightarrow> nat \<Rightarrow> bool list \<Rightarrow> Loc option \<Rightarrow> int GameState
    \<Rightarrow> int GameState \<times> CaptureInfo" where
  "captureStep rules who opp wasEmptyBefore lastLoc ns =
     (case lastLoc of
        Some (PitLoc side i) \<Rightarrow>
          if captureRule rules = KALAH \<and> side = who then
            if wasEmptyBefore ! i \<and> pits ns ! who ! i = 1 then
              (let oppI = (pitsPerSide rules - 1) - i;
                   oppSeeds = pits ns ! opp ! oppI
               in if oppSeeds > 0
                  then (addStore (setPit (setPit ns opp oppI 0) who i 0) who (oppSeeds + 1),
                        \<lparr> happened = True, pit = Some i, oppPit = Some oppI,
                          captured = Some (oppSeeds + 1) \<rparr>)
                  else (ns, noCapture))
            else (ns, noCapture)
          else (ns, noCapture)
      | _ \<Rightarrow> (ns, noCapture))"

text \<open>
  The state after sowing, capture and the turn change, before the terminal sweep, with
  \<open>last\<close> and the capture descriptor.
\<close>

definition sowAndCapture :: "int GameState \<Rightarrow> Rules \<Rightarrow> nat \<Rightarrow> int GameState \<times> Loc option \<times> CaptureInfo" where
  "sowAndCapture st rules p =
     (let n = pitsPerSide rules;
          who = toMove st;
          opp = 1 - who;
          ns = setPit (cloneState st) who p 0;
          wasEmptyBefore = map (\<lambda>i. pits st ! who ! i = 0) [0..<n];
          (ns1, lastLoc) = fold sowStep (sowPath st rules who p) (ns, None);
          (ns2, captureInfo) = captureStep rules who opp wasEmptyBefore lastLoc ns1
      in (ns2, lastLoc, captureInfo))"

definition playMove :: "int GameState \<Rightarrow> Rules \<Rightarrow> int \<Rightarrow> MoveError + MoveResult" where
  "playMove st rules p =
     (let n = pitsPerSide rules;
          who = toMove st;
          opp = 1 - who
      in if p < 0 \<or> p \<ge> int n then Inl PitIndexOutOfRange
         else if \<not> allowMoveFromEmpty rules \<and> pits st ! who ! nat p = 0 then Inl EmptyPit
         else
           (let (ns2, lastLoc, captureInfo) = sowAndCapture st rules (nat p);
                extra = (extraTurnOnStore rules \<and> lastLoc = Some (StoreLoc who));
                ns3 = ns2\<lparr> toMove := (if extra then who else opp) \<rparr>;
                terminalBeforeSweep = isTerminal ns3 rules;
                nsFinal = finalizeIfTerminal ns3 rules;
                terminalAfter = isTerminal nsFinal rules
            in Inr \<lparr> state = nsFinal,
                     path = sowPath st rules who (nat p),
                     mover = who,
                     pitIndex = p,
                     extraTurn = extra,
                     capture = captureInfo,
                     terminal = (terminalBeforeSweep \<or> terminalAfter) \<rparr>))"

definition pit1Index :: "Rules \<Rightarrow> nat" where
  "pit1Index rules = pitsPerSide rules - 1"

section \<open>The search module (ai.js)\<close>

text \<open>
  Scores are JavaScript numbers that can also be \<open>-Infinity\<close> and \<open>Infinity\<close> (the
  initial bounds of the window and of the running best value).
\<close>

datatype Score = NegInf | Fin int | PosInf

instantiation Score :: linorder
begin

fun less_eq_Score :: "Score \<Rightarrow> Score \<Rightarrow> bool" where
  "less_eq_Score NegInf y = True"
| "less_eq_Score x PosInf = True"
| "less_eq_Score (Fin a) (Fin b) = (a \<le> b)"
| "less_eq_Score x y = False"

definition less_Score :: "Score \<Rightarrow> Score \<Rightarrow> bool" where
  "less_Score x y = (x \<le> y \<and> \<not> y \<le> (x::Score))"

instance
proof
  fix x y z :: Score
  show "(x < y) = (x \<le> y \<and> \<not> y \<le> x)" by (simp add: less_Score_def)
  show "x \<le> x" by (cases x) simp_all
  show "x \<le> y \<Longrightarrow> y \<le> z \<Longrightarrow> x \<le> z" by (cases x; cases y; cases z) simp_all
  show "x \<le> y \<Longrightarrow> y \<le> x \<Longrightarrow> x = y" by (cases x; cases y) simp_all
  show "x \<le> y \<or> y \<le> x" by (cases x; cases y) auto
qed

end

definition evalCost :: "int GameState \<Rightarrow> Rules \<Rightarrow> nat \<Rightarrow> int \<Rightarrow> int \<Rightarrow> int \<Rightarrow> int" where
  "evalCost st rules rootP startStoreP startStoreO repRoot =
     (let opp = 1 - rootP;
          dp = store st ! rootP - startStoreP;
          dOpp = store st ! opp - startStoreO;
          i1 = pit1Index rules;
          pit1Empty = (if pits st ! rootP ! i1 = 0 then 1 else 0)
      in 10 * (dp - dOpp) + repRoot + 5 * pit1Empty)"

text \<open>The heuristic score of one candidate in \<open>orderMoves\<close>.\<close>

definition orderScore :: "int GameState \<Rightarrow> Rules \<Rightarrow> nat \<Rightarrow> int" where
  "orderScore st rules mv =
     (let p = toMove st in
      case playMove st rules (int mv) of
        Inl e \<Rightarrow> - (10 ^ 18)
      | Inr res \<Rightarrow>
          (let extra = (if extraTurn res then 1000 else 0);
               cap = (if happened (capture res) then 200 else 0);
               storeGain = store (state res) ! p - store st ! p
           in extra + cap + storeGain))"

text \<open>
  \<open>Array.prototype.sort\<close> is stable; with the comparator \<open>b.score - a.score\<close> it
  sorts by descending score, which is the stable insertion sort on the negated score.
\<close>

definition orderMoves :: "int GameState \<Rightarrow> Rules \<Rightarrow> nat list \<Rightarrow> nat list" where
  "orderMoves st rules moves =
     map fst (sort_key (\<lambda>(mv, score). - score) (map (\<lambda>mv. (mv, orderScore st rules mv)) moves))"

text \<open>
  The two loops of \<open>alphabeta\<close> over the ordered moves. \<open>child mv alpha beta\<close> is the
  body up to the recursive call: \<open>None\<close> when \<open>playMove\<close> fails (\<open>continue\<close>), else
  the value of the recursive call under the current window.
\<close>

fun maxLoop :: "(nat \<Rightarrow> Score \<Rightarrow> Score \<Rightarrow> Score option) \<Rightarrow> nat list \<Rightarrow> Score \<Rightarrow> Score \<Rightarrow> Score \<Rightarrow> Score" where
  "maxLoop child [] best alpha beta = best"
| "maxLoop child (mv # rest) best alpha beta =
     (case child mv alpha beta of
        None \<Rightarrow> maxLoop child rest best alpha beta
      | Some val \<Rightarrow>
          (let best' = max best val;
               alpha' = max alpha best'
           in if alpha' \<ge> beta then best' else maxLoop child rest best' alpha' beta))"

fun minLoop :: "(nat \<Rightarrow> Score \<Rightarrow> Score \<Rightarrow> Score option) \<Rightarrow> nat list \<Rightarrow> Score \<Rightarrow> Score \<Rightarrow> Score \<Rightarrow> Score" where
  "minLoop child [] best alpha beta = best"
| "minLoop child (mv # rest) best alpha beta =
     (case child mv alpha beta of
        None \<Rightarrow> minLoop child rest best alpha beta
      | Some val \<Rightarrow>
          (let best' = min best val;
               beta' = min beta best'
           in if alpha \<ge> beta' then best' else minLoop child rest best' alpha beta'))"

text \<open>\<open>st.terminal\<close> in a condition: \<open>undefined\<close> and \<open>false\<close> are falsy.\<close>

definition truthy :: "bool option \<Rightarrow> bool" where
  "truthy v = (v = Some True)"

function alphabeta :: "int GameState \<Rightarrow> Rules \<Rightarrow> int \<Rightarrow> Score \<Rightarrow> Score \<Rightarrow> nat \<Rightarrow> int \<Rightarrow> int \<Rightarrow> int \<Rightarrow> Score" where
  "alphabeta st rules depth alpha beta rootP startStoreP startStoreO repRoot =
     (if depth \<le> 0 \<or> truthy (GameState.terminal st)
      then Fin (evalCost st rules rootP startStoreP startStoreO repRoot)
      else if length (getValidMoves st rules) = 0
      then Fin (evalCost st rules rootP startStoreP startStoreO repRoot)
      else
        (let child = (\<lambda>mv a b.
               case playMove st rules (int mv) of
                 Inl e \<Rightarrow> None
               | Inr res \<Rightarrow>
                   Some (alphabeta (state res) rules (depth - 1) a b rootP startStoreP startStoreO
                           (if mover res = rootP \<and> extraTurn res then repRoot + 1 else repRoot)))
         in if toMove st = rootP
            then maxLoop child (orderMoves st rules (getValidMoves st rules)) NegInf alpha beta
            else minLoop child (orderMoves st rules (getValidMoves st rules)) PosInf alpha beta))"
  by pat_completeness auto
termination
  by (relation "measure (\<lambda>(st, rules, depth, alpha, beta, rootP, sp, so, rep). nat depth)") auto

declare alphabeta.simps [simp del]

record BestMove =
  hasMove :: bool
  move :: int
  score :: Score

text \<open>
  One call of \<open>alphabeta\<close> made by the loop of \<open>bestMove\<close>: the candidate, the window
  and \<open>repRoot\<close> passed, and the value returned. The list of these calls is ghost state
  of the loop: it records the calls and influences nothing.
\<close>

record RootCall =
  rcMove :: nat
  rcAlpha :: Score
  rcBeta :: Score
  rcRepRoot :: int
  rcVal :: Score

fun bestMoveLoop :: "int GameState \<Rightarrow> Rules \<Rightarrow> int \<Rightarrow> nat \<Rightarrow> int \<Rightarrow> int \<Rightarrow> nat list
    \<Rightarrow> int \<times> Score \<times> Score \<times> RootCall list \<Rightarrow> int \<times> Score \<times> Score \<times> RootCall list" where
  "bestMoveLoop st rules searchDepth rootP startStoreP startStoreO [] acc = acc"
| "bestMoveLoop st rules searchDepth rootP startStoreP startStoreO (mv # rest) (bestMv, bestScore, alpha, calls) =
     (case playMove st rules (int mv) of
        Inl e \<Rightarrow> bestMoveLoop st rules searchDepth rootP startStoreP startStoreO rest
                  (bestMv, bestScore, alpha, calls)
      | Inr res \<Rightarrow>
          (let repRoot = (if mover res = rootP \<and> extraTurn res then 1 else 0);
               val = alphabeta (state res) rules (searchDepth - 1) alpha PosInf
                       rootP startStoreP startStoreO repRoot;
               bestScore' = (if val > bestScore then val else bestScore);
               bestMv' = (if val > bestScore then int mv else bestMv);
               alpha' = max alpha bestScore'
           in bestMoveLoop st rules searchDepth rootP startStoreP startStoreO rest
                (bestMv', bestScore', alpha',
                 calls @ [\<lparr> rcMove = mv, rcAlpha = alpha, rcBeta = PosInf,
                            rcRepRoot = repRoot, rcVal = val \<rparr>])))"

definition bestMoveRun :: "int GameState \<Rightarrow> Rules \<Rightarrow> int \<Rightarrow> int \<times> Score \<times> Score \<times> RootCall list" where
  "bestMoveRun st rules depth =
     (let moves = getValidMoves st rules;
          rootP = toMove st;
          startStoreP = store st ! rootP;
          startStoreO = store st ! (1 - rootP);
          searchDepth = (if depth \<le> 0 then 1 else depth)
      in bestMoveLoop st rules searchDepth rootP startStoreP startStoreO
           (orderMoves st rules moves) (int (moves ! 0), NegInf, NegInf, []))"

definition bestMove :: "int GameState \<Rightarrow> Rules \<Rightarrow> int \<Rightarrow> BestMove" where
  "bestMove st rules depth =
     (if length (getValidMoves st rules) = 0
      then \<lparr> hasMove = False, move = - 1, score = NegInf \<rparr>
      else (case bestMoveRun st rules depth of
              (bestMv, bestScore, alpha, calls) \<Rightarrow>
                \<lparr> hasMove = True, move = bestMv, score = bestScore \<rparr>))"

text \<open>The calls of \<open>alphabeta\<close> that \<open>bestMove\<close> makes, in order.\<close>

definition rootCalls :: "int GameState \<Rightarrow> Rules \<Rightarrow> int \<Rightarrow> RootCall list" where
  "rootCalls st rules depth =
     (case bestMoveRun st rules depth of (bestMv, bestScore, alpha, calls) \<Rightarrow> calls)"

section \<open>Notions of the specification\<close>

text \<open>
  The data model of a game state: both pit arrays have \<open>pitsPerSide\<close> entries, there
  are two stores, the side to move is 0 or 1, and every count is non-negative.
\<close>

definition shaped :: "nat \<Rightarrow> int GameState \<Rightarrow> bool" where
  "shaped n st \<longleftrightarrow>
     length (pits st) = 2 \<and> length (pits st ! 0) = n \<and> length (pits st ! 1) = n \<and>
     length (store st) = 2"

definition wellFormed :: "Rules \<Rightarrow> int GameState \<Rightarrow> bool" where
  "wellFormed rules st \<longleftrightarrow> shaped (pitsPerSide rules) st \<and> toMove st < 2"

definition nonNegative :: "int GameState \<Rightarrow> bool" where
  "nonNegative st \<longleftrightarrow>
     list_all (\<lambda>x. 0 \<le> x) (pits st ! 0) \<and> list_all (\<lambda>x. 0 \<le> x) (pits st ! 1) \<and>
     0 \<le> store st ! 0 \<and> 0 \<le> store st ! 1"

definition validState :: "Rules \<Rightarrow> int GameState \<Rightarrow> bool" where
  "validState rules st \<longleftrightarrow> wellFormed rules st \<and> nonNegative st"

text \<open>The seeds on the board: \<open>sum(pits[0]) + sum(pits[1]) + store[0] + store[1]\<close>.\<close>

definition totalSeeds :: "int GameState \<Rightarrow> int" where
  "totalSeeds st = sum_list (pits st ! 0) + sum_list (pits st ! 1) + store st ! 0 + store st ! 1"

text \<open>
  A play line: the states met when the moves \<open>ps\<close> are applied one after the other
  from \<open>st\<close>, the first state included; \<open>None\<close> when one of the moves fails.
\<close>

fun playLine :: "int GameState \<Rightarrow> Rules \<Rightarrow> int list \<Rightarrow> int GameState list option" where
  "playLine st rules [] = Some [st]"
| "playLine st rules (p # ps) =
     (case playMove st rules p of
        Inl e \<Rightarrow> None
      | Inr res \<Rightarrow> map_option (Cons st) (playLine (state res) rules ps))"

text \<open>
  The sowing sequence in the words of the specification: position \<open>k\<close> of the circular
  sequence of \<open>2n+1\<close> positions relative to the mover is the mover's pit \<open>k\<close> for
  \<open>k\<close> in \<open>0..n-1\<close>, the mover's store for \<open>k = n\<close>, and the opponent's pit
  \<open>k - (n+1)\<close> for \<open>k\<close> in \<open>n+1..2n\<close>; the path starts at \<open>(pitIndex+1) mod (2n+1)\<close>
  and advances by one position per seed.
\<close>

definition specPosition :: "nat \<Rightarrow> nat \<Rightarrow> nat \<Rightarrow> Loc option" where
  "specPosition n who k =
     (if k \<le> n - 1 \<and> 0 < n then Some (PitLoc who k)
      else if k = n then Some (StoreLoc who)
      else if n + 1 \<le> k \<and> k \<le> 2 * n then Some (PitLoc (1 - who) (k - (n + 1)))
      else None)"

definition specPath :: "nat \<Rightarrow> nat \<Rightarrow> nat \<Rightarrow> nat \<Rightarrow> Loc option list" where
  "specPath n who p seeds =
     map (\<lambda>j. specPosition n who ((p + 1 + j) mod (2 * n + 1))) [0..<seeds]"

text \<open>A drop location that exists on a board with \<open>n\<close> pits per side.\<close>

fun validLoc :: "nat \<Rightarrow> Loc \<Rightarrow> bool" where
  "validLoc n (PitLoc side i) = (side < 2 \<and> i < n)"
| "validLoc n (StoreLoc side) = (side < 2)"

text \<open>A small configuration for worked examples: two pits per side, one seed per pit.\<close>

definition kalah2 :: Rules where
  "kalah2 = \<lparr> pitsPerSide = 2, seedsPerPit = 1, extraTurnOnStore = True,
               sweepOnGameEnd = True, captureRule = KALAH, allowMoveFromEmpty = False \<rparr>"

text \<open>
  The content of pit \<open>i\<close> of side \<open>s\<close> once the source pit \<open>src\<close> of the side to move
  is emptied and one seed is dropped for every entry of \<open>locs\<close>.
\<close>

definition sownPit :: "int GameState \<Rightarrow> Loc list \<Rightarrow> nat \<Rightarrow> nat \<Rightarrow> nat \<Rightarrow> int" where
  "sownPit st locs src s i =
     (if s = toMove st \<and> i = src then 0 else pits st ! s ! i) + int (count_list locs (PitLoc s i))"

text \<open>
  A measure of progress of a game: the seeds in the two stores, and the pit seeds
  weighted by their pit index. A state is \<open>earlier\<close> than another when it has fewer
  seeds in the stores, or as many and a smaller weight.
\<close>

definition storeSum :: "int GameState \<Rightarrow> int" where
  "storeSum st = store st ! 0 + store st ! 1"

definition weighted :: "int list \<Rightarrow> int" where
  "weighted xs = (\<Sum>i<length xs. int i * xs ! i)"

definition pitWeight :: "int GameState \<Rightarrow> int" where
  "pitWeight st = weighted (pits st ! 0) + weighted (pits st ! 1)"

definition earlier :: "int GameState \<Rightarrow> int GameState \<Rightarrow> bool" where
  "earlier a b \<longleftrightarrow> storeSum a < storeSum b \<or> (storeSum a = storeSum b \<and> pitWeight a < pitWeight b)"



text \<open>The default configuration of \<open>makeRules\<close>: six pits per side, four seeds per pit.\<close>

definition kalah6 :: Rules where
  "kalah6 = \<lparr> pitsPerSide = 6, seedsPerPit = 4, extraTurnOnStore = True,
               sweepOnGameEnd = True, captureRule = KALAH, allowMoveFromEmpty = False \<rparr>"

text \<open>
  What the loop of \<open>bestMove\<close> does with the value of one call: the candidate replaces
  the best move when its value is strictly greater than the best value so far.
\<close>

definition pickStep :: "RootCall \<Rightarrow> int \<times> Score \<Rightarrow> int \<times> Score" where
  "pickStep c = (\<lambda>(bestMv, bestScore).
     if rcVal c > bestScore then (int (rcMove c), rcVal c) else (bestMv, bestScore))"

text \<open>
  A recorded call is a call of \<open>alphabeta\<close> on the state that its candidate leads to,
  at depth \<open>searchDepth - 1\<close>, with the recorded lower bound and an unbounded upper
  one, and with \<open>repRoot\<close> 1 when the candidate earns an extra turn and 0 otherwise.
\<close>

definition rootCallOK :: "int GameState \<Rightarrow> Rules \<Rightarrow> int \<Rightarrow> RootCall \<Rightarrow> bool" where
  "rootCallOK st rules searchDepth c \<longleftrightarrow>
     rcBeta c = PosInf \<and>
     (\<exists>res. playMove st rules (int (rcMove c)) = Inr res \<and>
        rcRepRoot c = (if extraTurn res then 1 else 0) \<and>
        rcVal c = alphabeta (state res) rules (searchDepth - 1) (rcAlpha c) PosInf
                    (toMove st) (store st ! toMove st) (store st ! (1 - toMove st)) (rcRepRoot c))"

text \<open>
  The plain minimax value of the tree that \<open>alphabeta\<close> walks: the same leaves and the
  same children, the greatest child value where the root player is to move and the
  least one elsewhere, with no window and no cut-off.
\<close>

function minimax :: "int GameState \<Rightarrow> Rules \<Rightarrow> int \<Rightarrow> nat \<Rightarrow> int \<Rightarrow> int \<Rightarrow> int \<Rightarrow> Score" where
  "minimax st rules depth rootP startStoreP startStoreO repRoot =
     (if depth \<le> 0 \<or> truthy (GameState.terminal st)
      then Fin (evalCost st rules rootP startStoreP startStoreO repRoot)
      else if length (getValidMoves st rules) = 0
      then Fin (evalCost st rules rootP startStoreP startStoreO repRoot)
      else
        (let vals = concat (map (\<lambda>mv.
               case playMove st rules (int mv) of
                 Inl e \<Rightarrow> []
               | Inr res \<Rightarrow>
                   [minimax (state res) rules (depth - 1) rootP startStoreP startStoreO
                      (if mover res = rootP \<and> extraTurn res then repRoot + 1 else repRoot)])
               (orderMoves st rules (getValidMoves st rules)))
         in if toMove st = rootP then foldr max vals NegInf else foldr min vals PosInf))"
  by pat_completeness auto
termination
  by (relation "measure (\<lambda>(st, rules, depth, rootP, sp, so, rep). nat depth)") auto

declare minimax.simps [simp del]

text \<open>
  What a search with the window \<open>(a, b)\<close> may return for a position of value \<open>v\<close>:
  a result at or below \<open>a\<close> is an upper bound of \<open>v\<close>, a result at or above \<open>b\<close> is a
  lower bound, and a result strictly inside the window is \<open>v\<close> itself.
\<close>

definition inWindow :: "Score \<Rightarrow> Score \<Rightarrow> Score \<Rightarrow> Score \<Rightarrow> bool" where
  "inWindow a b v r \<longleftrightarrow> (r \<le> a \<longrightarrow> v \<le> r) \<and> (a < r \<and> r < b \<longrightarrow> r = v) \<and> (b \<le> r \<longrightarrow> r \<le> v)"

text \<open>
  The score of a root candidate searched with the full window, as \<open>scoreMoves\<close>
  computes it for every legal move.
\<close>

definition candidateScore :: "int GameState \<Rightarrow> Rules \<Rightarrow> int \<Rightarrow> nat \<Rightarrow> Score" where
  "candidateScore st rules depth mv =
     (case playMove st rules (int mv) of
        Inl e \<Rightarrow> NegInf
      | Inr res \<Rightarrow>
          alphabeta (state res) rules ((if depth \<le> 0 then 1 else depth) - 1) NegInf PosInf
            (toMove st) (store st ! toMove st) (store st ! (1 - toMove st))
            (if mover res = toMove st \<and> extraTurn res then 1 else 0))"

section \<open>Move application on JavaScript values and on the heap\<close>

text \<open>
  The definitions above take the pit index as an integer and a state as a value, which
  is how the engine and the search call \<open>playMove\<close>. The function itself receives any
  JavaScript value as \<open>pitIndex\<close>, can end in a thrown \<open>TypeError\<close> as well as
  in a returned \<open>{ok: false, ...}\<close>, and reads and writes arrays that live on the
  heap. This section models the same function with these three things explicit; on
  the integers and on the states of the data model it agrees with \<open>playMove\<close> above.
\<close>

subsection \<open>The values of \<open>pitIndex\<close>\<close>





subsection \<open>States on the heap\<close>

text \<open>
  The heap holds the arrays of numbers, by address: the rows \<open>pits[0]\<close> and
  \<open>pits[1]\<close> and the array \<open>store\<close> of every state. A state object is the
  addresses of its arrays together with its \<open>toMove\<close>: the only assignment to a
  property of a state object in the engine is \<open>ns.toMove = ...\<close>, on the object
  that \<open>cloneState\<close> has just built. Rows are read and written below their length,
  as in the states of the data model. \<open>deref\<close> reads the state that a state object
  denotes in a heap.
\<close>

type_synonym Heap = "int list list"

record StateRef =
  pitsRef :: "nat list"
  storeRef :: nat
  toMoveOf :: nat

definition deref :: "Heap \<Rightarrow> StateRef \<Rightarrow> int GameState" where
  "deref h st = \<lparr> pits = map (\<lambda>a. h ! a) (pitsRef st), store = h ! storeRef st,
                  toMove = toMoveOf st, terminal = None \<rparr>"









subsection \<open>\<open>playMove\<close> on the heap\<close>





subsection \<open>Notions for the heap\<close>

text \<open>
  A state object that owns its arrays: two rows and a store at three different
  addresses of the heap \<open>h\<close>, all of them allocated at or after address \<open>L\<close>.
\<close>

definition ownArrays :: "nat \<Rightarrow> Heap \<Rightarrow> StateRef \<Rightarrow> bool" where
  "ownArrays L h ns \<longleftrightarrow>
     length (pitsRef ns) = 2 \<and> distinct (pitsRef ns @ [storeRef ns]) \<and>
     list_all (\<lambda>a. L \<le> a \<and> a < length h) (pitsRef ns @ [storeRef ns])"

text \<open>
  A state object of the data model: its addresses are allocated and the state it
  denotes is well formed.
\<close>

definition validRef :: "Rules \<Rightarrow> Heap \<Rightarrow> StateRef \<Rightarrow> bool" where
  "validRef rules h st \<longleftrightarrow>
     list_all (\<lambda>a. a < length h) (pitsRef st @ [storeRef st]) \<and> wellFormed rules (deref h st)"


text \<open>
  The heap that holds just the arrays of the state \<open>st\<close>, and its state object.
\<close>

definition heapOf :: "int GameState \<Rightarrow> Heap" where
  "heapOf st = [pits st ! 0, pits st ! 1, store st]"

definition refOf :: "int GameState \<Rightarrow> StateRef" where
  "refOf st = \<lparr> pitsRef = [0, 1], storeRef = 2, toMoveOf = toMove st \<rparr>"

section \<open>Basic facts about states\<close>

lemma shaped_pits2: "shaped n st \<Longrightarrow> \<exists>a b. pits st = [a, b] \<and> length a = n \<and> length b = n"
  unfolding shaped_def
  by (cases "pits st"; cases "tl (pits st)"; cases "tl (tl (pits st))") auto

lemma shaped_store2: "shaped n st \<Longrightarrow> \<exists>s0 s1. store st = [s0, s1]"
  unfolding shaped_def
  by (cases "store st"; cases "tl (store st)"; cases "tl (tl (store st))") auto

lemma lt2_cases: "(s::nat) < 2 \<Longrightarrow> s = 0 \<or> s = 1"
  by auto

lemma nth_update_any: "(xs[s := y]) ! j = (if s = j \<and> s < length xs then y else xs ! j)"
  by (cases "s < length xs") (auto simp: nth_list_update list_update_beyond)

lemma setPit_simps [simp]:
  "pits (setPit ns s i v) = (pits ns)[s := (pits ns ! s)[i := v]]"
  "store (setPit ns s i v) = store ns"
  "toMove (setPit ns s i v) = toMove ns"
  "GameState.terminal (setPit ns s i v) = GameState.terminal ns"
  by (simp_all add: setPit_def)

lemma addStore_simps [simp]:
  "pits (addStore ns s v) = pits ns"
  "store (addStore ns s v) = (store ns)[s := store ns ! s + v]"
  "toMove (addStore ns s v) = toMove ns"
  "GameState.terminal (addStore ns s v) = GameState.terminal ns"
  by (simp_all add: addStore_def)

lemma cloneState_simps [simp]:
  "pits (cloneState st) = [pits st ! 0, pits st ! 1]"
  "store (cloneState st) = [store st ! 0, store st ! 1]"
  "toMove (cloneState st) = toMove st"
  "GameState.terminal (cloneState st) = None"
  by (simp_all add: cloneState_def)

lemma shaped_setPit [simp]: "shaped n (setPit ns s i v) = shaped n ns"
  by (auto simp: shaped_def nth_update_any)

lemma shaped_addStore [simp]: "shaped n (addStore ns s v) = shaped n ns"
  by (simp add: shaped_def)

lemma shaped_cloneState [simp]: "shaped n st \<Longrightarrow> shaped n (cloneState st)"
  by (simp add: shaped_def)

lemma shaped_toMove_update [simp]: "shaped n (ns\<lparr>toMove := t\<rparr>) = shaped n ns"
  by (simp add: shaped_def)

lemma sum_list_update_int:
  "i < length xs \<Longrightarrow> sum_list (xs[i := v]) = sum_list xs - xs ! i + (v::int)"
  by (induction xs arbitrary: i) (auto split: nat.splits)

lemma totalSeeds_setPit:
  "shaped n ns \<Longrightarrow> s < 2 \<Longrightarrow> i < n \<Longrightarrow>
   totalSeeds (setPit ns s i v) = totalSeeds ns - pits ns ! s ! i + v"
  by (auto simp: totalSeeds_def shaped_def sum_list_update_int dest!: lt2_cases)

lemma totalSeeds_addStore:
  "shaped n ns \<Longrightarrow> s < 2 \<Longrightarrow> totalSeeds (addStore ns s v) = totalSeeds ns + v"
  by (auto simp: totalSeeds_def shaped_def dest!: lt2_cases)

lemma totalSeeds_cloneState [simp]: "totalSeeds (cloneState st) = totalSeeds st"
  by (simp add: totalSeeds_def)

lemma totalSeeds_toMove_update [simp]: "totalSeeds (ns\<lparr>toMove := t\<rparr>) = totalSeeds ns"
  by (simp add: totalSeeds_def)

lemma nonNegative_setPit:
  "shaped n ns \<Longrightarrow> nonNegative ns \<Longrightarrow> 0 \<le> v \<Longrightarrow> nonNegative (setPit ns s i v)"
  by (auto simp: nonNegative_def shaped_def list_all_iff nth_update_any dest!: set_update_subset_insert[THEN subsetD])

lemma nonNegative_addStore:
  "shaped n ns \<Longrightarrow> nonNegative ns \<Longrightarrow> 0 \<le> v \<Longrightarrow> nonNegative (addStore ns s v)"
  by (auto simp: nonNegative_def shaped_def nth_update_any)

lemma nonNegative_cloneState [simp]: "nonNegative (cloneState st) = nonNegative st"
  by (simp add: nonNegative_def)

lemma nonNegative_toMove_update [simp]: "nonNegative (ns\<lparr>toMove := t\<rparr>) = nonNegative ns"
  by (simp add: nonNegative_def)

lemma nonNegative_pit: "shaped n ns \<Longrightarrow> nonNegative ns \<Longrightarrow> s < 2 \<Longrightarrow> i < n \<Longrightarrow> 0 \<le> pits ns ! s ! i"
  by (auto simp: nonNegative_def shaped_def list_all_length dest!: lt2_cases)

lemma ringLoc_valid: "who < 2 \<Longrightarrow> ringPos \<le> 2 * n \<Longrightarrow> validLoc n (ringLoc n who ringPos)"
  by (auto simp: ringLoc_def)

lemma sowLoop_valid:
  "who < 2 \<Longrightarrow> ringPos \<le> 2 * n \<Longrightarrow> loc \<in> set (sowLoop n who hand ringPos) \<Longrightarrow> validLoc n loc"
proof (induction n who hand ringPos rule: sowLoop.induct)
  case (1 n who hand ringPos)
  show ?case
  proof (cases "hand > 0")
    case True
    have next_le: "(ringPos + 1) mod (2 * n + 1) \<le> 2 * n"
      using mod_less_divisor[of "2 * n + 1" "ringPos + 1"] by simp
    from "1.prems"(3) True
    have "loc = ringLoc n who ringPos \<or> loc \<in> set (sowLoop n who (hand - 1) ((ringPos + 1) mod (2 * n + 1)))"
      by (subst (asm) sowLoop.simps) simp
    then show ?thesis
      using "1.IH"[OF True "1.prems"(1) next_le] ringLoc_valid[OF "1.prems"(1,2)] by blast
  next
    case False
    with "1.prems"(3) show ?thesis by (subst (asm) sowLoop.simps) simp
  qed
qed

lemma sowLoop_length: "length (sowLoop n who hand ringPos) = nat hand"
proof (induction n who hand ringPos rule: sowLoop.induct)
  case (1 n who hand ringPos)
  show ?case
    by (subst sowLoop.simps) (use 1 in \<open>auto simp: Suc_nat_eq_nat_zadd1\<close>)
qed

lemma sowLoop_nth:
  "k < nat hand \<Longrightarrow> ringPos < 2 * n + 1 \<Longrightarrow>
   sowLoop n who hand ringPos ! k = ringLoc n who ((ringPos + k) mod (2 * n + 1))"
proof (induction n who hand ringPos arbitrary: k rule: sowLoop.induct)
  case (1 n who hand ringPos)
  from "1.prems" have pos: "hand > 0" by simp
  show ?case
  proof (cases k)
    case 0
    with pos "1.prems" show ?thesis by (subst sowLoop.simps) simp
  next
    case (Suc j)
    have "j < nat (hand - 1)" using "1.prems"(1) Suc by simp
    moreover have "(ringPos + 1) mod (2 * n + 1) < 2 * n + 1" by simp
    ultimately have "sowLoop n who (hand - 1) ((ringPos + 1) mod (2 * n + 1)) ! j =
        ringLoc n who (((ringPos + 1) mod (2 * n + 1) + j) mod (2 * n + 1))"
      using "1.IH"[OF pos] by blast
    then show ?thesis
      using pos Suc by (subst sowLoop.simps) (simp add: mod_add_left_eq)
  qed
qed

lemma sowLoop_store: "StoreLoc s \<in> set (sowLoop n who hand ringPos) \<Longrightarrow> s = who"
proof (induction n who hand ringPos rule: sowLoop.induct)
  case (1 n who hand ringPos)
  show ?case
  proof (cases "hand > 0")
    case True
    from "1.prems" True
    have "StoreLoc s = ringLoc n who ringPos \<or> StoreLoc s \<in> set (sowLoop n who (hand - 1) ((ringPos + 1) mod (2 * n + 1)))"
      by (subst (asm) sowLoop.simps) simp
    then show ?thesis using "1.IH"[OF True] by (auto simp: ringLoc_def split: if_splits)
  next
    case False
    with "1.prems" show ?thesis by (subst (asm) sowLoop.simps) simp
  qed
qed

lemma sowPath_length:
  "length (sowPath st rules who p) = nat (pits st ! who ! p)"
  by (simp add: sowPath_def Let_def sowLoop_length)

lemma sowPath_valid:
  "who < 2 \<Longrightarrow> loc \<in> set (sowPath st rules who p) \<Longrightarrow> validLoc (pitsPerSide rules) loc"
  using sowLoop_valid[of who "(p + 1) mod (2 * pitsPerSide rules + 1)" "pitsPerSide rules" loc]
    mod_less_divisor[of "2 * pitsPerSide rules + 1" "p + 1"]
  by (auto simp: sowPath_def Let_def split: if_splits)

lemma sowPath_store: "StoreLoc s \<in> set (sowPath st rules who p) \<Longrightarrow> s = who"
  by (auto simp: sowPath_def Let_def split: if_splits dest: sowLoop_store)

lemma sowPath_nth:
  "k < length (sowPath st rules who p) \<Longrightarrow>
   sowPath st rules who p ! k = ringLoc (pitsPerSide rules) who ((p + 1 + k) mod (2 * pitsPerSide rules + 1))"
  by (auto simp: sowPath_def Let_def sowLoop_length sowLoop_nth mod_add_left_eq split: if_splits)

text \<open>The loop that performs the sowing.\<close>

lemma sowStep_shaped: "shaped n (fst (sowStep loc (ns, l))) = shaped n ns"
  by (cases loc) simp_all

lemma sowStep_total:
  "shaped n ns \<Longrightarrow> validLoc n loc \<Longrightarrow> totalSeeds (fst (sowStep loc (ns, l))) = totalSeeds ns + 1"
  by (cases loc) (simp_all add: totalSeeds_setPit totalSeeds_addStore)

lemma sowStep_nonNegative:
  "shaped n ns \<Longrightarrow> validLoc n loc \<Longrightarrow> nonNegative ns \<Longrightarrow> nonNegative (fst (sowStep loc (ns, l)))"
  by (cases loc) (auto intro!: nonNegative_setPit nonNegative_addStore dest: nonNegative_pit)

lemma sowStep_toMove: "toMove (fst (sowStep loc (ns, l))) = toMove ns"
  by (cases loc) simp_all

lemma sowStep_terminal: "GameState.terminal (fst (sowStep loc (ns, l))) = GameState.terminal ns"
  by (cases loc) simp_all

lemma sowStep_last: "snd (sowStep loc (ns, l)) = Some loc"
  by (cases loc) simp_all

lemma fold_sowStep_inv:
  "shaped n ns \<Longrightarrow> \<forall>loc\<in>set locs. validLoc n loc \<Longrightarrow>
   shaped n (fst (fold sowStep locs (ns, l))) \<and>
   totalSeeds (fst (fold sowStep locs (ns, l))) = totalSeeds ns + int (length locs) \<and>
   (nonNegative ns \<longrightarrow> nonNegative (fst (fold sowStep locs (ns, l)))) \<and>
   toMove (fst (fold sowStep locs (ns, l))) = toMove ns \<and>
   GameState.terminal (fst (fold sowStep locs (ns, l))) = GameState.terminal ns"
proof (induction locs arbitrary: ns l)
  case Nil
  then show ?case by simp
next
  case (Cons loc locs)
  obtain ns' l' where step: "sowStep loc (ns, l) = (ns', l')" by (cases "sowStep loc (ns, l)")
  have v: "validLoc n loc" using Cons.prems(2) by simp
  have s': "shaped n ns'" using sowStep_shaped[of n loc ns l] step Cons.prems(1) by simp
  have t': "totalSeeds ns' = totalSeeds ns + 1"
    using sowStep_total[OF Cons.prems(1) v, of l] step by simp
  have n': "nonNegative ns \<Longrightarrow> nonNegative ns'"
    using sowStep_nonNegative[OF Cons.prems(1) v, of l] step by simp
  have m': "toMove ns' = toMove ns" using sowStep_toMove[of loc ns l] step by simp
  have e': "GameState.terminal ns' = GameState.terminal ns" using sowStep_terminal[of loc ns l] step by simp
  from Cons.IH[OF s', of l'] Cons.prems(2) t' n' m' e' step show ?case by simp
qed

lemma fold_sowStep_last:
  "snd (fold sowStep locs (ns, l)) = (if locs = [] then l else Some (last locs))"
proof (induction locs arbitrary: ns l)
  case Nil
  then show ?case by simp
next
  case (Cons loc locs)
  obtain ns' l' where step: "sowStep loc (ns, l) = (ns', l')" by (cases "sowStep loc (ns, l)")
  then have "l' = Some loc" using sowStep_last[of loc ns l] by simp
  with Cons.IH[of ns' l'] step show ?case by simp
qed

lemma sowStep_pits:
  "shaped n ns \<Longrightarrow> validLoc n loc \<Longrightarrow> s < 2 \<Longrightarrow> i < n \<Longrightarrow>
   pits (fst (sowStep loc (ns, l))) ! s ! i = pits ns ! s ! i + (if loc = PitLoc s i then 1 else 0)"
  by (cases loc) (auto simp: shaped_def nth_update_any dest!: lt2_cases)

lemma sowStep_store:
  "shaped n ns \<Longrightarrow> validLoc n loc \<Longrightarrow> s < 2 \<Longrightarrow>
   store (fst (sowStep loc (ns, l))) ! s = store ns ! s + (if loc = StoreLoc s then 1 else 0)"
  by (cases loc) (auto simp: shaped_def nth_update_any dest!: lt2_cases)

lemma fold_sowStep_pits:
  "shaped n ns \<Longrightarrow> \<forall>loc\<in>set locs. validLoc n loc \<Longrightarrow> s < 2 \<Longrightarrow> i < n \<Longrightarrow>
   pits (fst (fold sowStep locs (ns, l))) ! s ! i = pits ns ! s ! i + int (count_list locs (PitLoc s i))"
proof (induction locs arbitrary: ns l)
  case Nil
  then show ?case by simp
next
  case (Cons loc locs)
  obtain ns' l' where step: "sowStep loc (ns, l) = (ns', l')" by (cases "sowStep loc (ns, l)")
  have v: "validLoc n loc" using Cons.prems(2) by simp
  have s': "shaped n ns'" using sowStep_shaped[of n loc ns l] step Cons.prems(1) by simp
  have p': "pits ns' ! s ! i = pits ns ! s ! i + (if loc = PitLoc s i then 1 else 0)"
    using sowStep_pits[OF Cons.prems(1) v Cons.prems(3,4), of l] step by simp
  from Cons.IH[OF s' _ Cons.prems(3,4), of l'] Cons.prems(2) p' step show ?case by simp
qed

lemma fold_sowStep_store:
  "shaped n ns \<Longrightarrow> \<forall>loc\<in>set locs. validLoc n loc \<Longrightarrow> s < 2 \<Longrightarrow>
   store (fst (fold sowStep locs (ns, l))) ! s = store ns ! s + int (count_list locs (StoreLoc s))"
proof (induction locs arbitrary: ns l)
  case Nil
  then show ?case by simp
next
  case (Cons loc locs)
  obtain ns' l' where step: "sowStep loc (ns, l) = (ns', l')" by (cases "sowStep loc (ns, l)")
  have v: "validLoc n loc" using Cons.prems(2) by simp
  have s': "shaped n ns'" using sowStep_shaped[of n loc ns l] step Cons.prems(1) by simp
  have p': "store ns' ! s = store ns ! s + (if loc = StoreLoc s then 1 else 0)"
    using sowStep_store[OF Cons.prems(1) v Cons.prems(3), of l] step by simp
  from Cons.IH[OF s' _ Cons.prems(3), of l'] Cons.prems(2) p' step show ?case by simp
qed

text \<open>The terminal test and the sweep.\<close>

lemma isTerminal_fold:
  "fold (\<lambda>i (z0, z1). (if a ! i \<noteq> (0::int) then False else z0, if b ! i \<noteq> (0::int) then False else z1))
        [0..<k] (True, True) = ((\<forall>i<k. a ! i = 0), (\<forall>i<k. b ! i = 0))"
  by (induction k) (auto simp: less_Suc_eq)

lemma isTerminal_iff:
  "isTerminal st rules \<longleftrightarrow>
     (\<forall>i<pitsPerSide rules. pits st ! 0 ! i = 0) \<or> (\<forall>i<pitsPerSide rules. pits st ! 1 ! i = 0)"
  by (simp add: isTerminal_def isTerminal_fold Let_def)

lemma sweep_fold:
  "k \<le> length (pits ns ! side) \<Longrightarrow> side < length (pits ns) \<Longrightarrow>
   fold (\<lambda>i (sweep, ns). (sweep + pits ns ! side ! i, setPit ns side i 0)) [0..<k] (0, ns) =
     (sum_list (take k (pits ns ! side)),
      ns\<lparr> pits := (pits ns)[side := replicate k 0 @ drop k (pits ns ! side)] \<rparr>)"
proof (induction k)
  case 0
  then show ?case by simp
next
  case (Suc k)
  have k: "k < length (pits ns ! side)" using Suc.prems by simp
  have "(replicate k 0 @ drop k (pits ns ! side))[k := 0] = replicate (Suc k) 0 @ drop (Suc k) (pits ns ! side)"
    using k by (simp add: list_update_append replicate_append_same upd_conv_take_nth_drop)
  moreover have "(replicate k 0 @ drop k (pits ns ! side)) ! k = pits ns ! side ! k"
    using k by (simp add: nth_append)
  ultimately show ?case
    using Suc k by (simp add: setPit_def take_Suc_conv_app_nth)
qed

lemma sweepSide_eq:
  "shaped n ns \<Longrightarrow> side < 2 \<Longrightarrow>
   sweepSide n side ns =
     ns\<lparr> pits := (pits ns)[side := replicate n 0],
         store := (store ns)[side := store ns ! side + sum_list (pits ns ! side)] \<rparr>"
  using sweep_fold[of n ns side]
  by (auto simp: sweepSide_def shaped_def addStore_def dest!: lt2_cases)

lemma sweep_both:
  assumes "shaped n ns"
  shows "fold (sweepSide n) [0, 1] ns =
     ns\<lparr> pits := [replicate n 0, replicate n 0],
         store := [store ns ! 0 + sum_list (pits ns ! 0), store ns ! 1 + sum_list (pits ns ! 1)] \<rparr>"
proof -
  obtain a b where ab: "pits ns = [a, b]" using shaped_pits2[OF assms] by blast
  obtain s0 s1 where ss: "store ns = [s0, s1]" using shaped_store2[OF assms] by blast
  let ?m = "ns\<lparr> pits := (pits ns)[0 := replicate n 0],
         store := (store ns)[0 := store ns ! 0 + sum_list (pits ns ! 0)] \<rparr>"
  have 1: "sweepSide n 0 ns = ?m" using sweepSide_eq[OF assms, of 0] by simp
  have sm: "shaped n ?m" using assms by (simp add: shaped_def ab ss)
  have 2: "sweepSide n 1 ?m = ?m\<lparr> pits := (pits ?m)[1 := replicate n 0],
         store := (store ?m)[1 := store ?m ! 1 + sum_list (pits ?m ! 1)] \<rparr>"
    using sweepSide_eq[OF sm, of 1] by simp
  have "fold (sweepSide n) [0, 1] ns = sweepSide n 1 (sweepSide n 0 ns)" by simp
  also have "\<dots> = ?m\<lparr> pits := (pits ?m)[1 := replicate n 0],
         store := (store ?m)[1 := store ?m ! 1 + sum_list (pits ?m ! 1)] \<rparr>"
    unfolding 1 by (rule 2)
  also have "\<dots> = ns\<lparr> pits := [replicate n 0, replicate n 0],
         store := [store ns ! 0 + sum_list (pits ns ! 0), store ns ! 1 + sum_list (pits ns ! 1)] \<rparr>"
    by (simp add: ab ss)
  finally show ?thesis .
qed

lemma finalizeIfTerminal_eq:
  "shaped (pitsPerSide rules) st \<Longrightarrow>
   finalizeIfTerminal st rules =
     (if isTerminal st rules \<and> sweepOnGameEnd rules
      then \<lparr> pits = [replicate (pitsPerSide rules) 0, replicate (pitsPerSide rules) 0],
             store = [store st ! 0 + sum_list (pits st ! 0), store st ! 1 + sum_list (pits st ! 1)],
             toMove = toMove st, terminal = None \<rparr>
      else st)"
proof -
  assume sh: "shaped (pitsPerSide rules) st"
  have "fold (sweepSide (pitsPerSide rules)) [0, 1] (cloneState st) =
     (cloneState st)\<lparr> pits := [replicate (pitsPerSide rules) 0, replicate (pitsPerSide rules) 0],
         store := [store (cloneState st) ! 0 + sum_list (pits (cloneState st) ! 0),
                   store (cloneState st) ! 1 + sum_list (pits (cloneState st) ! 1)] \<rparr>"
    by (rule sweep_both[OF shaped_cloneState[OF sh]])
  then show ?thesis
    by (simp add: finalizeIfTerminal_def cloneState_def)
qed

lemma getValidMoves_fold:
  "fold (\<lambda>i moves. if P i then moves else moves @ [i]) xs acc = acc @ filter (\<lambda>i. \<not> P i) xs"
  by (induction xs arbitrary: acc) auto

lemma getValidMoves_eq:
  "getValidMoves st rules =
     filter (\<lambda>i. allowMoveFromEmpty rules \<or> pits st ! toMove st ! i \<noteq> 0) [0..<pitsPerSide rules]"
  by (simp add: getValidMoves_def Let_def getValidMoves_fold)

text \<open>The capture block.\<close>

lemma captureStep_cases:
  assumes "captureStep rules who opp web lastLoc ns = (ns', ci)"
  shows "(ns' = ns \<and> ci = noCapture) \<or>
         (\<exists>i. lastLoc = Some (PitLoc who i) \<and> captureRule rules = KALAH \<and> web ! i \<and>
              pits ns ! who ! i = 1 \<and> pits ns ! opp ! (pitsPerSide rules - 1 - i) > 0 \<and>
              ns' = addStore (setPit (setPit ns opp (pitsPerSide rules - 1 - i) 0) who i 0) who
                      (pits ns ! opp ! (pitsPerSide rules - 1 - i) + 1) \<and>
              ci = \<lparr> happened = True, pit = Some i, oppPit = Some (pitsPerSide rules - 1 - i),
                      captured = Some (pits ns ! opp ! (pitsPerSide rules - 1 - i) + 1) \<rparr>)"
proof (cases lastLoc)
  case None
  with assms show ?thesis by (simp add: captureStep_def)
next
  case (Some loc)
  show ?thesis
  proof (cases loc)
    case (StoreLoc s)
    with Some assms show ?thesis by (simp add: captureStep_def)
  next
    case (PitLoc s i)
    with Some assms show ?thesis
      by (simp add: captureStep_def Let_def split: if_splits)
  qed
qed

lemma captureStep_inv:
  assumes sh: "shaped (pitsPerSide rules) ns" and who: "who < 2"
    and lastv: "\<And>s i. lastLoc = Some (PitLoc s i) \<Longrightarrow> i < pitsPerSide rules"
    and cs: "captureStep rules who (1 - who) web lastLoc ns = (ns', ci)"
  shows "shaped (pitsPerSide rules) ns' \<and> totalSeeds ns' = totalSeeds ns \<and>
         (nonNegative ns \<longrightarrow> nonNegative ns') \<and> toMove ns' = toMove ns \<and>
         GameState.terminal ns' = GameState.terminal ns"
proof -
  let ?n = "pitsPerSide rules"
  consider (no) "ns' = ns" |
    (yes) i where "lastLoc = Some (PitLoc who i)" "pits ns ! who ! i = 1"
       "pits ns ! (1 - who) ! (?n - 1 - i) > 0"
       "ns' = addStore (setPit (setPit ns (1 - who) (?n - 1 - i) 0) who i 0) who (pits ns ! (1 - who) ! (?n - 1 - i) + 1)"
    using captureStep_cases[OF cs] by blast
  then show ?thesis
  proof cases
    case no
    then show ?thesis using sh by simp
  next
    case (yes i)
    note l = yes(1) and one = yes(2) and pos = yes(3) and ns' = yes(4)
  have i: "i < ?n" using lastv[OF l] .
  then have oi: "?n - 1 - i < ?n" by simp
  have opp: "1 - who < 2" "1 - who \<noteq> who" using who by (auto dest!: lt2_cases)
  let ?a = "setPit ns (1 - who) (?n - 1 - i) 0"
  let ?b = "setPit ?a who i 0"
  have sa: "shaped ?n ?a" and sb: "shaped ?n ?b" using sh by simp_all
  have ta: "totalSeeds ?a = totalSeeds ns - pits ns ! (1 - who) ! (?n - 1 - i)"
    using totalSeeds_setPit[OF sh opp(1) oi, of 0] by simp
  have pa: "pits ?a ! who ! i = 1"
    using one opp who sh by (auto simp: nth_update_any shaped_def)
  have tb: "totalSeeds ?b = totalSeeds ?a - 1"
    using totalSeeds_setPit[OF sa who i, of 0] pa by simp
  have tot: "totalSeeds ns' = totalSeeds ns"
    unfolding ns' using totalSeeds_addStore[OF sb who] ta tb by simp
  have nn: "nonNegative ns \<Longrightarrow> nonNegative ns'"
    unfolding ns' using pos
    by (intro nonNegative_addStore[OF sb] nonNegative_setPit[OF sa] nonNegative_setPit[OF sh]) simp_all
  show ?thesis using tot nn sh by (simp add: ns')
  qed
qed

lemma sowAndCapture_inv:
  assumes v: "validState rules st" and p: "p < pitsPerSide rules"
    and sc: "sowAndCapture st rules p = (ns2, lastLoc, ci)"
  shows "shaped (pitsPerSide rules) ns2 \<and> nonNegative ns2 \<and> totalSeeds ns2 = totalSeeds st \<and>
         toMove ns2 = toMove st \<and> GameState.terminal ns2 = None \<and>
         lastLoc = (if sowPath st rules (toMove st) p = [] then None
                    else Some (last (sowPath st rules (toMove st) p)))"
proof -
  let ?n = "pitsPerSide rules" and ?who = "toMove st"
  let ?path = "sowPath st rules ?who p"
  let ?ns = "setPit (cloneState st) ?who p 0"
  have sh: "shaped ?n st" and who: "?who < 2" and nn: "nonNegative st"
    using v by (simp_all add: validState_def wellFormed_def)
  have hand: "0 \<le> pits st ! ?who ! p" using nonNegative_pit[OF sh nn who p] .
  have shc: "shaped ?n (cloneState st)" using sh by simp
  have pc: "pits (cloneState st) ! ?who ! p = pits st ! ?who ! p"
    using who by (auto dest!: lt2_cases)
  have sns: "shaped ?n ?ns" using shc by simp
  have tns: "totalSeeds ?ns = totalSeeds st - pits st ! ?who ! p"
    using totalSeeds_setPit[OF shc who p, of 0] pc by simp
  have nns: "nonNegative ?ns" using nonNegative_setPit[OF shc _ order_refl] nn by simp
  have pv: "\<forall>loc\<in>set ?path. validLoc ?n loc" using sowPath_valid[OF who] by blast
  obtain ns1 l1 where f: "fold sowStep ?path (?ns, None) = (ns1, l1)"
    by (cases "fold sowStep ?path (?ns, None)")
  have inv1: "shaped ?n ns1" "totalSeeds ns1 = totalSeeds ?ns + int (length ?path)"
    "nonNegative ns1" "toMove ns1 = ?who" "GameState.terminal ns1 = None"
    using fold_sowStep_inv[OF sns pv, of None] f nns by simp_all
  have l1: "l1 = (if ?path = [] then None else Some (last ?path))"
    using fold_sowStep_last[of ?path ?ns None] f by simp
  have t1: "totalSeeds ns1 = totalSeeds st"
    using inv1(2) tns hand by (simp add: sowPath_length)
  have cs: "captureStep rules ?who (1 - ?who) (map (\<lambda>i. pits st ! ?who ! i = 0) [0..<?n]) l1 ns1 = (ns2, ci)"
    and ll: "lastLoc = l1"
    using sc f by (simp_all add: sowAndCapture_def Let_def split: prod.splits)
  have lastv: "\<And>s i. l1 = Some (PitLoc s i) \<Longrightarrow> i < ?n"
  proof -
    fix s i assume "l1 = Some (PitLoc s i)"
    then have "?path \<noteq> []" "last ?path = PitLoc s i" using l1 by (auto split: if_splits)
    then have "PitLoc s i \<in> set ?path" using last_in_set by metis
    then show "i < ?n" using pv by auto
  qed
  from captureStep_inv[OF inv1(1) who lastv cs] inv1 t1 l1 ll show ?thesis by simp
qed

lemma sum_list_nonneg_all: "list_all (\<lambda>x. 0 \<le> x) xs \<Longrightarrow> 0 \<le> sum_list (xs::int list)"
  by (induction xs) auto

lemma finalizeIfTerminal_inv:
  assumes sh: "shaped (pitsPerSide rules) ns"
  shows "shaped (pitsPerSide rules) (finalizeIfTerminal ns rules) \<and>
         totalSeeds (finalizeIfTerminal ns rules) = totalSeeds ns \<and>
         (nonNegative ns \<longrightarrow> nonNegative (finalizeIfTerminal ns rules)) \<and>
         toMove (finalizeIfTerminal ns rules) = toMove ns"
  using sh sum_list_nonneg_all[of "pits ns ! 0"] sum_list_nonneg_all[of "pits ns ! 1"]
  by (auto simp: finalizeIfTerminal_eq[OF sh] shaped_def totalSeeds_def nonNegative_def list_all_iff sum_list_replicate)

lemma playMove_Inr:
  "playMove st rules p = Inr res \<Longrightarrow>
   0 \<le> p \<and> p < int (pitsPerSide rules) \<and>
   (allowMoveFromEmpty rules \<or> pits st ! toMove st ! nat p \<noteq> 0) \<and>
   state res = finalizeIfTerminal
       ((fst (sowAndCapture st rules (nat p)))
          \<lparr> toMove := (if extraTurn res then toMove st else 1 - toMove st) \<rparr>) rules \<and>
   path res = sowPath st rules (toMove st) (nat p) \<and>
   mover res = toMove st \<and> pitIndex res = p \<and>
   extraTurn res = (extraTurnOnStore rules \<and> fst (snd (sowAndCapture st rules (nat p))) = Some (StoreLoc (toMove st))) \<and>
   capture res = snd (snd (sowAndCapture st rules (nat p)))"
  by (auto simp: playMove_def Let_def split: if_splits prod.splits)

lemma playMove_valid:
  assumes v: "validState rules st" and pm: "playMove st rules p = Inr res"
  shows "validState rules (state res) \<and> totalSeeds (state res) = totalSeeds st"
proof -
  let ?n = "pitsPerSide rules"
  obtain ns2 l ci where sc: "sowAndCapture st rules (nat p) = (ns2, l, ci)"
    by (cases "sowAndCapture st rules (nat p)") auto
  from playMove_Inr[OF pm] have p: "nat p < ?n"
    and st': "state res = finalizeIfTerminal (ns2\<lparr> toMove := (if extraTurn res then toMove st else 1 - toMove st) \<rparr>) rules"
    by (auto simp: sc)
  have who: "toMove st < 2" using v by (simp add: validState_def wellFormed_def)
  note i2 = sowAndCapture_inv[OF v p sc]
  let ?ns3 = "ns2\<lparr> toMove := (if extraTurn res then toMove st else 1 - toMove st) \<rparr>"
  have s3: "shaped ?n ?ns3" using i2 by simp
  from finalizeIfTerminal_inv[OF s3] i2 who show ?thesis
    by (auto simp: st' validState_def wellFormed_def)
qed

lemma initStandard_valid: "validState rules (initStandard rules side)"
  by (simp add: validState_def wellFormed_def shaped_def nonNegative_def initStandard_def list_all_iff Let_def)

lemma initStandard_total:
  "totalSeeds (initStandard rules side) = 2 * int (pitsPerSide rules) * int (seedsPerPit rules)"
  by (simp add: totalSeeds_def initStandard_def sum_list_replicate Let_def)

lemma playLine_valid:
  "validState rules st \<Longrightarrow> playLine st rules ps = Some sts \<Longrightarrow> s \<in> set sts \<Longrightarrow>
   validState rules s \<and> totalSeeds s = totalSeeds st"
proof (induction ps arbitrary: st sts)
  case Nil
  then show ?case by auto
next
  case (Cons p ps)
  from Cons.prems(2) obtain res rest where pm: "playMove st rules p = Inr res"
    and rest: "playLine (state res) rules ps = Some rest" and sts: "sts = st # rest"
    by (auto split: sum.splits)
  from playMove_valid[OF Cons.prems(1) pm] have v': "validState rules (state res)"
    and t': "totalSeeds (state res) = totalSeeds st" by simp_all
  show ?case
  proof (cases "s = st")
    case True
    then show ?thesis using Cons.prems(1) by simp
  next
    case False
    then have "s \<in> set rest" using Cons.prems(3) sts by simp
    from Cons.IH[OF v' rest this] t' show ?thesis by simp
  qed
qed

lemma sowAndCapture_last:
  "fst (snd (sowAndCapture st rules p)) =
     (if sowPath st rules (toMove st) p = [] then None
      else Some (last (sowPath st rules (toMove st) p)))"
  using fold_sowStep_last[of "sowPath st rules (toMove st) p" "setPit (cloneState st) (toMove st) p 0" None]
  by (auto simp: sowAndCapture_def Let_def split: prod.splits)

lemma fold_sowStep_toMove: "toMove (fst (fold sowStep locs (ns, l))) = toMove ns"
proof (induction locs arbitrary: ns l)
  case Nil
  then show ?case by simp
next
  case (Cons loc locs)
  obtain ns' l' where step: "sowStep loc (ns, l) = (ns', l')" by (cases "sowStep loc (ns, l)")
  with Cons.IH[of ns' l'] sowStep_toMove[of loc ns l] show ?case by simp
qed

lemma captureStep_toMove:
  "captureStep rules who opp web lastLoc ns = (ns', ci) \<Longrightarrow> toMove ns' = toMove ns"
  by (drule captureStep_cases) auto

lemma sowAndCapture_toMove: "toMove (fst (sowAndCapture st rules p)) = toMove st"
proof -
  obtain ns1 l1 where f: "fold sowStep (sowPath st rules (toMove st) p) (setPit (cloneState st) (toMove st) p 0, None) = (ns1, l1)"
    by (cases "fold sowStep (sowPath st rules (toMove st) p) (setPit (cloneState st) (toMove st) p 0, None)")
  obtain ns2 ci where c: "captureStep rules (toMove st) (1 - toMove st)
      (map (\<lambda>i. pits st ! toMove st ! i = 0) [0..<pitsPerSide rules]) l1 ns1 = (ns2, ci)"
    by (cases "captureStep rules (toMove st) (1 - toMove st)
      (map (\<lambda>i. pits st ! toMove st ! i = 0) [0..<pitsPerSide rules]) l1 ns1")
  have "toMove ns1 = toMove st"
    using fold_sowStep_toMove[of "sowPath st rules (toMove st) p" "setPit (cloneState st) (toMove st) p 0" None] f
    by simp
  moreover have "toMove ns2 = toMove ns1" using captureStep_toMove[OF c] .
  moreover have "fst (sowAndCapture st rules p) = ns2"
    using f c by (simp add: sowAndCapture_def Let_def)
  ultimately show ?thesis by simp
qed

lemma sweep_fold_toMove:
  "toMove (snd (fold (\<lambda>i (sweep, ns). (sweep + pits ns ! side ! i, setPit ns side i 0)) xs (a, ns))) = toMove ns"
  by (induction xs arbitrary: a ns) simp_all

lemma sweepSide_toMove: "toMove (sweepSide n side ns) = toMove ns"
  using sweep_fold_toMove[of side "[0..<n]" 0 ns]
  by (auto simp: sweepSide_def split: prod.splits)

lemma finalizeIfTerminal_toMove: "toMove (finalizeIfTerminal ns rules) = toMove ns"
  by (simp add: finalizeIfTerminal_def sweepSide_toMove)

lemma specPosition_ringLoc: "k \<le> 2 * n \<Longrightarrow> specPosition n who k = Some (ringLoc n who k)"
  by (auto simp: specPosition_def ringLoc_def)

lemma playMove_succeeds:
  "0 \<le> p \<Longrightarrow> p < int (pitsPerSide rules) \<Longrightarrow>
   allowMoveFromEmpty rules \<or> pits st ! toMove st ! nat p \<noteq> 0 \<Longrightarrow>
   \<exists>res. playMove st rules p = Inr res"
  by (auto simp: playMove_def Let_def split: prod.splits)

lemma toInt32_eq:
  "toInt32 x = (truncRat x + 2 ^ 31) mod 2 ^ 32 - 2 ^ 31"
  by (simp add: toInt32_def int_word_sint)

lemma toInt32_minus_one: "toInt32 (- 1) = - 1"
  by code_simp

lemma toInt32_zero: "toInt32 0 = 0"
  by code_simp

lemma captureStep_happened_iff:
  "happened (snd (captureStep rules who opp web lastLoc ns)) \<longleftrightarrow>
     captureRule rules = KALAH \<and>
     (\<exists>i. lastLoc = Some (PitLoc who i) \<and> web ! i \<and> pits ns ! who ! i = 1 \<and>
          0 < pits ns ! opp ! (pitsPerSide rules - 1 - i))"
proof (cases lastLoc)
  case None
  then show ?thesis by (simp add: captureStep_def noCapture_def)
next
  case (Some loc)
  show ?thesis
  proof (cases loc)
    case (StoreLoc s)
    with Some show ?thesis by (simp add: captureStep_def noCapture_def)
  next
    case (PitLoc s i)
    with Some show ?thesis by (auto simp: captureStep_def noCapture_def Let_def)
  qed
qed

lemma sowAndCapture_unfold:
  "sowAndCapture st rules p =
     (fst (captureStep rules (toMove st) (1 - toMove st)
             (map (\<lambda>i. pits st ! toMove st ! i = 0) [0..<pitsPerSide rules])
             (snd (fold sowStep (sowPath st rules (toMove st) p)
                        (setPit (cloneState st) (toMove st) p 0, None)))
             (fst (fold sowStep (sowPath st rules (toMove st) p)
                        (setPit (cloneState st) (toMove st) p 0, None)))),
      snd (fold sowStep (sowPath st rules (toMove st) p)
                 (setPit (cloneState st) (toMove st) p 0, None)),
      snd (captureStep rules (toMove st) (1 - toMove st)
             (map (\<lambda>i. pits st ! toMove st ! i = 0) [0..<pitsPerSide rules])
             (snd (fold sowStep (sowPath st rules (toMove st) p)
                        (setPit (cloneState st) (toMove st) p 0, None)))
             (fst (fold sowStep (sowPath st rules (toMove st) p)
                        (setPit (cloneState st) (toMove st) p 0, None)))))"
  by (simp add: sowAndCapture_def Let_def split: prod.splits)

lemma upd2: "who < 2 \<Longrightarrow> [a, b][who := c] = (if who = 0 then [c, b] else [a, c])"
  by (auto dest!: lt2_cases)

lemma nth2: "who < 2 \<Longrightarrow> [a, b] ! who = (if who = 0 then a else b)"
  by (auto dest!: lt2_cases)

lemma setPit_clone_pits:
  assumes "shaped n st" "who < 2" "s < 2" "i < n" "p < n"
  shows "pits (setPit (cloneState st) who p v) ! s ! i =
           (if s = who \<and> i = p then v else pits st ! s ! i)"
proof -
  have l: "length (pits st ! 0) = n" "length (pits st ! 1) = n"
    using assms(1) by (simp_all add: shaped_def)
  have e: "pits (setPit (cloneState st) who p v) =
      (if who = 0 then [(pits st ! 0)[p := v], pits st ! 1] else [pits st ! 0, (pits st ! 1)[p := v]])"
    unfolding setPit_simps cloneState_simps by (simp only: upd2[OF assms(2)] nth2[OF assms(2)] if_distrib if_cancel split: if_splits) simp
  from assms(3) have "s = 0 \<or> s = 1" by (rule lt2_cases)
  moreover from assms(2) have "who = 0 \<or> who = 1" by (rule lt2_cases)
  ultimately show ?thesis
    using l assms(4,5) unfolding e by (elim disjE) (simp_all add: nth_update_any)
qed

lemma sown_state:
  assumes wf: "wellFormed rules st" and p: "p < pitsPerSide rules"
  shows "shaped (pitsPerSide rules)
           (fst (fold sowStep (sowPath st rules (toMove st) p)
                      (setPit (cloneState st) (toMove st) p 0, None)))"
    and "s < 2 \<Longrightarrow> i < pitsPerSide rules \<Longrightarrow>
         pits (fst (fold sowStep (sowPath st rules (toMove st) p)
                      (setPit (cloneState st) (toMove st) p 0, None))) ! s ! i =
         sownPit st (sowPath st rules (toMove st) p) p s i"
    and "s < 2 \<Longrightarrow>
         store (fst (fold sowStep (sowPath st rules (toMove st) p)
                      (setPit (cloneState st) (toMove st) p 0, None))) ! s =
         store st ! s + int (count_list (sowPath st rules (toMove st) p) (StoreLoc s))"
proof -
  let ?n = "pitsPerSide rules" and ?who = "toMove st"
  let ?path = "sowPath st rules ?who p"
  let ?ns = "setPit (cloneState st) ?who p 0"
  have sh: "shaped ?n st" and who: "?who < 2"
    using wf by (simp_all add: wellFormed_def)
  have sns: "shaped ?n ?ns" using sh by simp
  have pv: "\<forall>loc\<in>set ?path. validLoc ?n loc" using sowPath_valid[OF who] by blast
  show "shaped ?n (fst (fold sowStep ?path (?ns, None)))"
    using fold_sowStep_inv[OF sns pv, of None] by simp
  {
    assume s: "s < 2" and i: "i < ?n"
    have "pits ?ns ! s ! i = (if s = ?who \<and> i = p then 0 else pits st ! s ! i)"
      using setPit_clone_pits[OF sh who s i p] .
    then show "pits (fst (fold sowStep ?path (?ns, None))) ! s ! i = sownPit st ?path p s i"
      using fold_sowStep_pits[OF sns pv s i, of None] by (simp add: sownPit_def)
  }
  {
    assume s: "s < 2"
    have "store ?ns ! s = store st ! s" using s by (auto dest!: lt2_cases)
    then show "store (fst (fold sowStep ?path (?ns, None))) ! s =
         store st ! s + int (count_list ?path (StoreLoc s))"
      using fold_sowStep_store[OF sns pv s, of None] by simp
  }
qed

lemma playMove_terminal:
  "playMove st rules p = Inr res \<Longrightarrow>
   MoveResult.terminal res =
     (isTerminal ((fst (sowAndCapture st rules (nat p)))
          \<lparr> toMove := (if extraTurn res then toMove st else 1 - toMove st) \<rparr>) rules \<or>
      isTerminal (state res) rules)"
  by (auto simp: playMove_def Let_def split: if_splits prod.splits)

lemma isTerminal_toMove_update [simp]: "isTerminal (ns\<lparr>toMove := t\<rparr>) rules = isTerminal ns rules"
  by (simp add: isTerminal_iff)

lemma count_list_0_iff: "count_list xs x = 0 \<longleftrightarrow> x \<notin> set xs"
  by (induction xs) auto

lemma setPit_pits:
  "shaped n ns \<Longrightarrow> a < 2 \<Longrightarrow> s < 2 \<Longrightarrow> i < n \<Longrightarrow>
   pits (setPit ns a i v) ! s ! j = (if s = a \<and> j = i then v else pits ns ! s ! j)"
  by (auto simp: nth_update_any shaped_def dest!: lt2_cases)

lemma captured_state:
  assumes sh: "shaped n ns" and who: "who < 2" and i: "i < n" and oi: "oi < n"
  shows "s < 2 \<Longrightarrow>
         pits (addStore (setPit (setPit ns (1 - who) oi 0) who i 0) who c) ! s ! j =
           (if (s = who \<and> j = i) \<or> (s = 1 - who \<and> j = oi) then 0 else pits ns ! s ! j)"
    and "store (addStore (setPit (setPit ns (1 - who) oi 0) who i 0) who c) ! who = store ns ! who + c"
    and "store (addStore (setPit (setPit ns (1 - who) oi 0) who i 0) who c) ! (1 - who) = store ns ! (1 - who)"
proof -
  have opp: "1 - who < 2" using who by simp
  have sh1: "shaped n (setPit ns (1 - who) oi 0)" using sh by simp
  show "s < 2 \<Longrightarrow>
         pits (addStore (setPit (setPit ns (1 - who) oi 0) who i 0) who c) ! s ! j =
           (if (s = who \<and> j = i) \<or> (s = 1 - who \<and> j = oi) then 0 else pits ns ! s ! j)"
    using setPit_pits[OF sh1 who _ i, of s 0 j] setPit_pits[OF sh opp _ oi, of s 0 j]
    by auto
  have l: "length (store ns) = 2" using sh by (simp add: shaped_def)
  show "store (addStore (setPit (setPit ns (1 - who) oi 0) who i 0) who c) ! who = store ns ! who + c"
    using l who by (simp add: nth_update_any)
  show "store (addStore (setPit (setPit ns (1 - who) oi 0) who i 0) who c) ! (1 - who) = store ns ! (1 - who)"
    using l who by (auto simp: nth_update_any dest!: lt2_cases)
qed

lemma swept_iff:
  assumes pm: "playMove st rules p = Inr res"
    and sh: "shaped (pitsPerSide rules) (fst (sowAndCapture st rules (nat p)))"
  shows "(MoveResult.terminal res \<and> sweepOnGameEnd rules) =
         (isTerminal (fst (sowAndCapture st rules (nat p))) rules \<and> sweepOnGameEnd rules)"
proof -
  let ?ns3 = "(fst (sowAndCapture st rules (nat p)))
          \<lparr> toMove := (if extraTurn res then toMove st else 1 - toMove st) \<rparr>"
  have st': "state res = finalizeIfTerminal ?ns3 rules" using playMove_Inr[OF pm] by simp
  have sh3: "shaped (pitsPerSide rules) ?ns3" using sh by simp
  have tr: "MoveResult.terminal res = (isTerminal ?ns3 rules \<or> isTerminal (state res) rules)"
    using playMove_terminal[OF pm] .
  show ?thesis
  proof (cases "isTerminal ?ns3 rules")
    case True
    then show ?thesis using tr by simp
  next
    case False
    then have "state res = ?ns3" by (simp add: st' finalizeIfTerminal_eq[OF sh3])
    then have "\<not> MoveResult.terminal res" using tr False by simp
    then show ?thesis using False by simp
  qed
qed

lemma unswept_state:
  assumes pm: "playMove st rules p = Inr res"
    and sh: "shaped (pitsPerSide rules) (fst (sowAndCapture st rules (nat p)))"
    and ns: "\<not> (MoveResult.terminal res \<and> sweepOnGameEnd rules)"
  shows "pits (state res) = pits (fst (sowAndCapture st rules (nat p)))"
    and "store (state res) = store (fst (sowAndCapture st rules (nat p)))"
proof -
  let ?ns3 = "(fst (sowAndCapture st rules (nat p)))
          \<lparr> toMove := (if extraTurn res then toMove st else 1 - toMove st) \<rparr>"
  have st': "state res = finalizeIfTerminal ?ns3 rules" using playMove_Inr[OF pm] by simp
  have sh3: "shaped (pitsPerSide rules) ?ns3" using sh by simp
  have "\<not> (isTerminal ?ns3 rules \<and> sweepOnGameEnd rules)"
    using ns swept_iff[OF pm sh] by simp
  then have e: "state res = ?ns3" by (auto simp: st' finalizeIfTerminal_eq[OF sh3])
  show "pits (state res) = pits (fst (sowAndCapture st rules (nat p)))" by (simp add: e)
  show "store (state res) = store (fst (sowAndCapture st rules (nat p)))" by (simp add: e)
qed

lemma swept_state:
  assumes pm: "playMove st rules p = Inr res"
    and sh: "shaped (pitsPerSide rules) (fst (sowAndCapture st rules (nat p)))"
    and sw: "MoveResult.terminal res \<and> sweepOnGameEnd rules"
  shows "pits (state res) = [replicate (pitsPerSide rules) 0, replicate (pitsPerSide rules) 0]"
    and "store (state res) =
           [store (fst (sowAndCapture st rules (nat p))) ! 0 + sum_list (pits (fst (sowAndCapture st rules (nat p))) ! 0),
            store (fst (sowAndCapture st rules (nat p))) ! 1 + sum_list (pits (fst (sowAndCapture st rules (nat p))) ! 1)]"
proof -
  let ?ns3 = "(fst (sowAndCapture st rules (nat p)))
          \<lparr> toMove := (if extraTurn res then toMove st else 1 - toMove st) \<rparr>"
  have st': "state res = finalizeIfTerminal ?ns3 rules" using playMove_Inr[OF pm] by simp
  have sh3: "shaped (pitsPerSide rules) ?ns3" using sh by simp
  have t: "isTerminal ?ns3 rules \<and> sweepOnGameEnd rules"
    using sw swept_iff[OF pm sh] by simp
  show "pits (state res) = [replicate (pitsPerSide rules) 0, replicate (pitsPerSide rules) 0]"
    using t by (simp add: st' finalizeIfTerminal_eq[OF sh3])
  show "store (state res) =
           [store (fst (sowAndCapture st rules (nat p))) ! 0 + sum_list (pits (fst (sowAndCapture st rules (nat p))) ! 0),
            store (fst (sowAndCapture st rules (nat p))) ! 1 + sum_list (pits (fst (sowAndCapture st rules (nat p))) ! 1)]"
    using t by (simp add: st' finalizeIfTerminal_eq[OF sh3])
qed


lemma weighted_nonneg: "list_all (\<lambda>x. 0 \<le> x) xs \<Longrightarrow> 0 \<le> weighted xs"
  unfolding weighted_def by (intro sum_nonneg) (simp add: list_all_length)


lemma pitWeight_cloneState [simp]: "pitWeight (cloneState st) = pitWeight st"
  by (simp add: pitWeight_def)

lemma pitWeight_addStore [simp]: "pitWeight (addStore ns s v) = pitWeight ns"
  by (simp add: pitWeight_def)






lemma earlier_trans: "earlier a b \<Longrightarrow> earlier b c \<Longrightarrow> earlier a c"
  by (auto simp: earlier_def)









text \<open>The loop of the top-level recommendation.\<close>

lemma fold_max_ge_init: "(b::Score) \<le> fold max xs b"
proof (induction xs arbitrary: b)
  case Nil
  then show ?case by simp
next
  case (Cons x xs)
  have "b \<le> max x b" by simp
  also have "\<dots> \<le> fold max xs (max x b)" by (rule Cons.IH)
  finally show ?case by simp
qed

lemma fold_max_ge_elem: "x \<in> set xs \<Longrightarrow> (x::Score) \<le> fold max xs b"
proof (induction xs arbitrary: b)
  case Nil
  then show ?case by simp
next
  case (Cons y xs)
  show ?case
  proof (cases "x = y")
    case True
    have "x \<le> max y b" using True by simp
    also have "\<dots> \<le> fold max xs (max y b)" by (rule fold_max_ge_init)
    finally show ?thesis by simp
  next
    case False
    then have "x \<in> set xs" using Cons.prems by simp
    then show ?thesis using Cons.IH by simp
  qed
qed

lemma pickStep_snd: "snd (pickStep c (bm, bs)) = max (rcVal c) bs"
  by (auto simp: pickStep_def max_def)

lemma fold_pickStep_score: "snd (fold pickStep cs (bm, bs)) = fold max (map rcVal cs) bs"
proof (induction cs arbitrary: bm bs)
  case Nil
  then show ?case by simp
next
  case (Cons c cs)
  obtain bm1 bs1 where s: "pickStep c (bm, bs) = (bm1, bs1)" by (cases "pickStep c (bm, bs)")
  then have "bs1 = max (rcVal c) bs" using pickStep_snd[of c bm bs] by simp
  with Cons.IH[of bm1 bs1] s show ?case by simp
qed

lemma fold_pickStep_keep:
  "\<forall>c\<in>set cs. rcVal c \<le> bs \<Longrightarrow> fold pickStep cs (bm, bs) = (bm, bs)"
  by (induction cs) (auto simp: pickStep_def)

lemma fold_pickStep_move:
  "k < length cs \<Longrightarrow> rcVal (cs ! k) = fold max (map rcVal cs) bs \<Longrightarrow> bs < rcVal (cs ! k) \<Longrightarrow>
   \<forall>j<k. rcVal (cs ! j) < rcVal (cs ! k) \<Longrightarrow>
   fst (fold pickStep cs (bm, bs)) = int (rcMove (cs ! k))"
proof (induction cs arbitrary: bm bs k)
  case Nil
  then show ?case by simp
next
  case (Cons c cs)
  show ?case
  proof (cases k)
    case 0
    have m: "rcVal c = fold max (map rcVal cs) (max (rcVal c) bs)" using Cons.prems(2) 0 by simp
    have "\<forall>d\<in>set cs. rcVal d \<le> rcVal c"
    proof
      fix d assume "d \<in> set cs"
      then have "rcVal d \<in> set (map rcVal cs)" by simp
      from fold_max_ge_elem[OF this, of "max (rcVal c) bs"] m show "rcVal d \<le> rcVal c" by simp
    qed
    then have "fold pickStep cs (int (rcMove c), rcVal c) = (int (rcMove c), rcVal c)"
      by (rule fold_pickStep_keep)
    moreover have "pickStep c (bm, bs) = (int (rcMove c), rcVal c)"
      using Cons.prems(3) 0 by (simp add: pickStep_def)
    ultimately show ?thesis using 0 by simp
  next
    case (Suc i)
    obtain bm1 bs1 where s: "pickStep c (bm, bs) = (bm1, bs1)" by (cases "pickStep c (bm, bs)")
    then have b1: "bs1 = max (rcVal c) bs" using pickStep_snd[of c bm bs] by simp
    have lt: "rcVal c < rcVal (cs ! i)" using Cons.prems(4) Suc by auto
    have 1: "i < length cs" using Cons.prems(1) Suc by simp
    have 2: "rcVal (cs ! i) = fold max (map rcVal cs) bs1" using Cons.prems(2) Suc b1 by simp
    have 3: "bs1 < rcVal (cs ! i)" using lt Cons.prems(3) Suc b1 by simp
    have 4: "\<forall>j<i. rcVal (cs ! j) < rcVal (cs ! i)" using Cons.prems(4) Suc by auto
    from Cons.IH[OF 1 2 3 4, of bm1] s Suc show ?thesis by simp
  qed
qed

lemma max_pick: "max b (if v > b then v else b) = (if v > b then v else (b::Score))"
  by (auto simp: max_def)

lemma pick_max: "(if v > b then v else b) = max v (b::Score)"
  by (auto simp: max_def)

lemma bestMoveLoop_inv:
  assumes "bestMoveLoop st rules sd (toMove st) (store st ! toMove st) (store st ! (1 - toMove st))
             mvs (bm, bs, bs, cs) = (bm', bs', al', cs')"
  shows "al' = bs' \<and>
         (\<exists>new. cs' = cs @ new \<and>
            map rcMove new = filter (\<lambda>mv. \<not> isl (playMove st rules (int mv))) mvs \<and>
            (bm', bs') = fold pickStep new (bm, bs) \<and>
            (\<forall>c\<in>set new. rootCallOK st rules sd c) \<and>
            (\<forall>k<length new. rcAlpha (new ! k) = fold max (map rcVal (take k new)) bs))"
  using assms
proof (induction mvs arbitrary: bm bs cs)
  case Nil
  then show ?case by auto
next
  case (Cons mv mvs)
  show ?case
  proof (cases "playMove st rules (int mv)")
    case (Inl e)
    with Cons.prems have "bestMoveLoop st rules sd (toMove st) (store st ! toMove st)
        (store st ! (1 - toMove st)) mvs (bm, bs, bs, cs) = (bm', bs', al', cs')" by simp
    from Cons.IH[OF this] Inl show ?thesis by simp
  next
    case (Inr res)
    let ?rep = "if extraTurn res then 1 else 0 :: int"
    let ?val = "alphabeta (state res) rules (sd - 1) bs PosInf (toMove st) (store st ! toMove st)
                  (store st ! (1 - toMove st)) ?rep"
    let ?c = "\<lparr> rcMove = mv, rcAlpha = bs, rcBeta = PosInf, rcRepRoot = ?rep, rcVal = ?val \<rparr>"
    let ?bs1 = "if ?val > bs then ?val else bs"
    let ?bm1 = "if ?val > bs then int mv else bm"
    have mo: "mover res = toMove st" using playMove_Inr[OF Inr] by simp
    have a1: "max bs ?bs1 = ?bs1" by (rule max_pick)
    have step: "bestMoveLoop st rules sd (toMove st) (store st ! toMove st)
        (store st ! (1 - toMove st)) (mv # mvs) (bm, bs, bs, cs) =
      bestMoveLoop st rules sd (toMove st) (store st ! toMove st)
        (store st ! (1 - toMove st)) mvs (?bm1, ?bs1, max bs ?bs1, cs @ [?c])"
      using Inr mo by (simp add: Let_def)
    have "bestMoveLoop st rules sd (toMove st) (store st ! toMove st)
        (store st ! (1 - toMove st)) mvs (?bm1, ?bs1, ?bs1, cs @ [?c]) = (bm', bs', al', cs')"
      using Cons.prems unfolding step a1 .
    from Cons.IH[OF this] obtain new where al: "al' = bs'" and cs': "cs' = (cs @ [?c]) @ new"
      and mv': "map rcMove new = filter (\<lambda>mv. \<not> isl (playMove st rules (int mv))) mvs"
      and pk: "(bm', bs') = fold pickStep new (?bm1, ?bs1)"
      and ok: "\<forall>c\<in>set new. rootCallOK st rules sd c"
      and ch: "\<forall>k<length new. rcAlpha (new ! k) = fold max (map rcVal (take k new)) ?bs1"
      by blast
    have okc: "rootCallOK st rules sd ?c" using Inr by (simp add: rootCallOK_def)
    have ps: "pickStep ?c (bm, bs) = (?bm1, ?bs1)" by (simp add: pickStep_def)
    have b1: "?bs1 = max ?val bs" by (rule pick_max)
    have ch': "\<forall>k<length (?c # new). rcAlpha ((?c # new) ! k) = fold max (map rcVal (take k (?c # new))) bs"
    proof (intro allI impI)
      fix k assume k: "k < length (?c # new)"
      show "rcAlpha ((?c # new) ! k) = fold max (map rcVal (take k (?c # new))) bs"
      proof (cases k)
        case 0
        then show ?thesis by simp
      next
        case (Suc i)
        then have "i < length new" using k by simp
        with ch have "rcAlpha (new ! i) = fold max (map rcVal (take i new)) ?bs1" by blast
        then show ?thesis using Suc b1 by simp
      qed
    qed
    have "cs' = cs @ (?c # new)" using cs' by simp
    moreover have "map rcMove (?c # new) = filter (\<lambda>mv. \<not> isl (playMove st rules (int mv))) (mv # mvs)"
      using mv' Inr by simp
    moreover have "(bm', bs') = fold pickStep (?c # new) (bm, bs)" using pk ps by simp
    moreover have "\<forall>c\<in>set (?c # new). rootCallOK st rules sd c" using ok okc by simp
    ultimately show ?thesis using al ch' by blast
  qed
qed

lemma orderMoves_set: "set (orderMoves st rules ms) = set ms"
  by (auto simp: orderMoves_def image_iff)

lemma getValidMoves_succeed:
  "mv \<in> set (getValidMoves st rules) \<Longrightarrow> \<not> isl (playMove st rules (int mv))"
proof -
  assume "mv \<in> set (getValidMoves st rules)"
  then have "mv < pitsPerSide rules" "allowMoveFromEmpty rules \<or> pits st ! toMove st ! mv \<noteq> 0"
    by (auto simp: getValidMoves_eq)
  then obtain res where "playMove st rules (int mv) = Inr res"
    using playMove_succeeds[of "int mv" rules st] by auto
  then show ?thesis by simp
qed

lemma bestMoveRun_facts:
  assumes ne: "getValidMoves st rules \<noteq> []"
  shows "hasMove (bestMove st rules depth)"
    and "(move (bestMove st rules depth), score (bestMove st rules depth)) =
           fold pickStep (rootCalls st rules depth) (int (getValidMoves st rules ! 0), NegInf)"
    and "map rcMove (rootCalls st rules depth) =
       filter (\<lambda>mv. \<not> isl (playMove st rules (int mv))) (orderMoves st rules (getValidMoves st rules))"
    and "\<forall>c\<in>set (rootCalls st rules depth). rootCallOK st rules (if depth \<le> 0 then 1 else depth) c"
    and "\<forall>k<length (rootCalls st rules depth).
        rcAlpha (rootCalls st rules depth ! k) =
          fold max (map rcVal (take k (rootCalls st rules depth))) NegInf"
proof -
  let ?sd = "if depth \<le> 0 then 1 else depth"
  let ?ord = "orderMoves st rules (getValidMoves st rules)"
  obtain bm bs al cs where r: "bestMoveLoop st rules ?sd (toMove st) (store st ! toMove st)
      (store st ! (1 - toMove st)) ?ord (int (getValidMoves st rules ! 0), NegInf, NegInf, []) = (bm, bs, al, cs)"
    using prod_cases4 by blast
  have run: "bestMoveRun st rules depth = (bm, bs, al, cs)"
    using r by (simp add: bestMoveRun_def Let_def)
  note inv = bestMoveLoop_inv[OF r]
  from inv obtain new where n: "cs = [] @ new"
    and mv: "map rcMove new = filter (\<lambda>mv. \<not> isl (playMove st rules (int mv))) ?ord"
    and pk: "(bm, bs) = fold pickStep new (int (getValidMoves st rules ! 0), NegInf)"
    and ok: "\<forall>c\<in>set new. rootCallOK st rules ?sd c"
    and ch: "\<forall>k<length new. rcAlpha (new ! k) = fold max (map rcVal (take k new)) NegInf"
    by (elim conjE exE)
  have nc: "new = cs" using n by simp
  have rc: "rootCalls st rules depth = cs" by (simp add: rootCalls_def run)
  have bmv: "bestMove st rules depth = \<lparr> hasMove = True, move = bm, score = bs \<rparr>"
    using ne by (simp add: bestMove_def run)
  show "hasMove (bestMove st rules depth)" by (simp add: bmv)
  show "(move (bestMove st rules depth), score (bestMove st rules depth)) =
           fold pickStep (rootCalls st rules depth) (int (getValidMoves st rules ! 0), NegInf)"
    using pk unfolding rc nc by (simp add: bmv)
  show "map rcMove (rootCalls st rules depth) =
       filter (\<lambda>mv. \<not> isl (playMove st rules (int mv))) ?ord"
    using mv unfolding rc nc .
  show "\<forall>c\<in>set (rootCalls st rules depth). rootCallOK st rules ?sd c"
    using ok unfolding rc nc .
  show "\<forall>k<length (rootCalls st rules depth).
        rcAlpha (rootCalls st rules depth ! k) =
          fold max (map rcVal (take k (rootCalls st rules depth))) NegInf"
    using ch unfolding rc nc .
qed

lemma rootCallOK_D:
  assumes "rootCallOK st rules sd c"
  shows "rcBeta c = PosInf \<and>
        (\<exists>res. playMove st rules (int (rcMove c)) = Inr res \<and>
           (rcRepRoot c = 1 \<longleftrightarrow> extraTurn res) \<and>
           (rcRepRoot c = 0 \<longleftrightarrow> \<not> extraTurn res) \<and>
           rcVal c = alphabeta (state res) rules (sd - 1) (rcAlpha c) PosInf
               (toMove st) (store st ! toMove st) (store st ! (1 - toMove st)) (rcRepRoot c))"
proof -
  from assms obtain res where be: "rcBeta c = PosInf"
    and r: "playMove st rules (int (rcMove c)) = Inr res"
    and rep: "rcRepRoot c = (if extraTurn res then 1 else 0)"
    and val: "rcVal c = alphabeta (state res) rules (sd - 1) (rcAlpha c) PosInf
               (toMove st) (store st ! toMove st) (store st ! (1 - toMove st)) (rcRepRoot c)"
    unfolding rootCallOK_def by (elim conjE exE)
  have "(rcRepRoot c = 1 \<longleftrightarrow> extraTurn res) \<and> (rcRepRoot c = 0 \<longleftrightarrow> \<not> extraTurn res)"
    unfolding rep by simp
  with be r val show ?thesis by (intro conjI exI[of _ res]) simp_all
qed

text \<open>The window of \<open>alphabeta\<close> against the minimax value.\<close>

lemma Score_le_PosInf [simp]: "x \<le> PosInf"
  by (cases x) simp_all

lemma Score_NegInf_le [simp]: "NegInf \<le> x"
  by simp

lemma maxLoop_ge_best: "best \<le> maxLoop child mvs best alpha beta"
proof (induction mvs arbitrary: best alpha)
  case Nil
  then show ?case by simp
next
  case (Cons mv mvs)
  show ?case
  proof (cases "child mv alpha beta")
    case None
    then show ?thesis using Cons.IH by simp
  next
    case (Some val)
    have "best \<le> max best val" by simp
    also have "\<dots> \<le> maxLoop child mvs (max best val) (max alpha (max best val)) beta" by (rule Cons.IH)
    finally show ?thesis using Some by (auto simp: Let_def)
  qed
qed

lemma minLoop_le_best: "minLoop child mvs best alpha beta \<le> best"
proof (induction mvs arbitrary: best beta)
  case Nil
  then show ?case by simp
next
  case (Cons mv mvs)
  show ?case
  proof (cases "child mv alpha beta")
    case None
    then show ?thesis using Cons.IH by simp
  next
    case (Some val)
    have "minLoop child mvs (min best val) alpha (min beta (min best val)) \<le> min best val" by (rule Cons.IH)
    also have "\<dots> \<le> best" by simp
    finally show ?thesis using Some by (auto simp: Let_def)
  qed
qed

lemma maxLoop_inWindow:
  assumes ch: "\<And>mv. mv \<in> set mvs \<Longrightarrow>
        (tvs mv = [] \<and> (\<forall>a b. child mv a b = None)) \<or>
        (\<exists>v. tvs mv = [v] \<and> (\<forall>a b. a < b \<longrightarrow> (\<exists>r. child mv a b = Some r \<and> inWindow a b v r)))"
    and "best \<le> alpha" and "alpha < beta"
  shows "inWindow alpha beta (foldr max (concat (map tvs mvs)) NegInf) (maxLoop child mvs best alpha beta)"
  using assms
proof (induction mvs arbitrary: best alpha)
  case Nil
  then show ?case by (auto simp: inWindow_def)
next
  case (Cons mv mvs)
  let ?T = "foldr max (concat (map tvs mvs)) NegInf"
  have chr: "\<And>mv'. mv' \<in> set mvs \<Longrightarrow>
        (tvs mv' = [] \<and> (\<forall>a b. child mv' a b = None)) \<or>
        (\<exists>v. tvs mv' = [v] \<and> (\<forall>a b. a < b \<longrightarrow> (\<exists>r. child mv' a b = Some r \<and> inWindow a b v r)))"
    using Cons.prems(1) by simp
  have mvin: "mv \<in> set (mv # mvs)" by simp
  have "(tvs mv = [] \<and> child mv alpha beta = None) \<or>
        (\<exists>v r. tvs mv = [v] \<and> child mv alpha beta = Some r \<and> inWindow alpha beta v r)"
    using Cons.prems(1)[OF mvin]
  proof
    assume "tvs mv = [] \<and> (\<forall>a b. child mv a b = None)"
    then show ?thesis by simp
  next
    assume "\<exists>v. tvs mv = [v] \<and> (\<forall>a b. a < b \<longrightarrow> (\<exists>r. child mv a b = Some r \<and> inWindow a b v r))"
    then obtain v where v: "tvs mv = [v]"
      and al: "\<forall>a b. a < b \<longrightarrow> (\<exists>r. child mv a b = Some r \<and> inWindow a b v r)" by blast
    from al Cons.prems(3) obtain r where "child mv alpha beta = Some r \<and> inWindow alpha beta v r"
      by blast
    with v show ?thesis by blast
  qed
  then show ?case
  proof (elim disjE exE conjE)
    assume skip: "tvs mv = []" "child mv alpha beta = None"
    then show ?thesis using Cons.IH[OF chr Cons.prems(2,3)] by simp
  next
    fix v r
    assume call: "tvs mv = [v]" "child mv alpha beta = Some r" "inWindow alpha beta v r"
    define b1 where "b1 = max best r"
    define a1 where "a1 = max alpha b1"
    define R where "R = maxLoop child mvs b1 a1 beta"
    have a1r: "a1 = max alpha r" using Cons.prems(2) by (auto simp: a1_def b1_def max_def)
    have aa: "alpha \<le> a1" and ra: "r \<le> a1" by (simp_all add: a1r)
    have bl: "b1 \<le> a1" by (simp add: a1_def)
    have rb1: "r \<le> b1" by (simp add: b1_def)
    have unf: "maxLoop child (mv # mvs) best alpha beta = (if a1 \<ge> beta then b1 else R)"
      using call(2) by (simp add: Let_def a1_def b1_def R_def)
    have tv: "foldr max (concat (map tvs (mv # mvs))) NegInf = max v ?T"
      using call(1) by simp
    show ?thesis
    proof (cases "a1 \<ge> beta")
      case True
      have rb: "beta \<le> r"
      proof (rule ccontr)
        assume "\<not> beta \<le> r"
        then have "r < beta" by simp
        then have "max alpha r < beta" using Cons.prems(3) by (simp add: max_less_iff_conj)
        then have "a1 < beta" unfolding a1r .
        then show False using True by simp
      qed
      have "best < r" using Cons.prems(2,3) rb by (meson le_less_trans less_le_trans)
      then have b1r: "b1 = r" by (auto simp: b1_def max_def)
      have rv: "r \<le> v" using call(3) rb by (simp add: inWindow_def)
      have ar: "alpha < r" using Cons.prems(3) rb by (rule less_le_trans)
      have "inWindow alpha beta (max v ?T) r"
        unfolding inWindow_def using rb rv ar by (auto simp: max_def)
      then show ?thesis unfolding unf tv using True b1r by simp
    next
      case False
      then have lt: "a1 < beta" by (rule iffD1[OF not_le])
      have ih: "inWindow a1 beta ?T R" unfolding R_def by (rule Cons.IH[OF chr bl lt])
      have "b1 \<le> R" unfolding R_def by (rule maxLoop_ge_best)
      with rb1 have ge: "r \<le> R" by (rule order.trans)
      have "inWindow alpha beta (max v ?T) R"
        unfolding inWindow_def
      proof (intro conjI impI)
        assume Ra: "R \<le> alpha"
        then have "R \<le> a1" using aa by (rule order.trans)
        then have 1: "?T \<le> R" using ih by (simp add: inWindow_def)
        have "r \<le> alpha" using ge Ra by (rule order.trans)
        then have "v \<le> r" using call(3) by (simp add: inWindow_def)
        then have "v \<le> R" using ge by (rule order.trans)
        then show "max v ?T \<le> R" using 1 by simp
      next
        assume h: "alpha < R \<and> R < beta"
        show "R = max v ?T"
        proof (cases "R \<le> a1")
          case True
          then have 1: "?T \<le> R" using ih by (simp add: inWindow_def)
          have "\<not> r \<le> alpha"
          proof
            assume "r \<le> alpha"
            then have "a1 = alpha" unfolding a1r by (auto simp: max_def)
            then show False using True h by (auto dest: leD)
          qed
          then have ar: "alpha < r" by simp
          then have "a1 = r" unfolding a1r by (auto simp: max_def)
          then have Rr: "R = r" using True ge by simp
          then have "r < beta" using h by simp
          then have "r = v" using call(3) ar by (simp add: inWindow_def)
          then show ?thesis using Rr 1 by (auto simp: max_def)
        next
          case False
          then have g: "a1 < R" by simp
          then have RT: "R = ?T" using ih h by (simp add: inWindow_def)
          have "v \<le> R"
          proof (cases "r \<le> alpha")
            case True
            then have "v \<le> r" using call(3) by (simp add: inWindow_def)
            then show ?thesis using ge by (rule order.trans)
          next
            case False
            then have ar: "alpha < r" by simp
            have "r < R" using ra g by (rule le_less_trans)
            then have "r < beta" using h by (simp add: less_trans)
            then have "r = v" using call(3) ar by (simp add: inWindow_def)
            then show ?thesis using ge by simp
          qed
          then show ?thesis unfolding RT[symmetric] by (auto simp: max_def)
        qed
      next
        assume "beta \<le> R"
        then have "R \<le> ?T" using ih by (simp add: inWindow_def)
        then show "R \<le> max v ?T" by (auto simp: max_def)
      qed
      then show ?thesis unfolding unf tv using False by simp
    qed
  qed
qed

lemma minLoop_inWindow:
  assumes ch: "\<And>mv. mv \<in> set mvs \<Longrightarrow>
        (tvs mv = [] \<and> (\<forall>a b. child mv a b = None)) \<or>
        (\<exists>v. tvs mv = [v] \<and> (\<forall>a b. a < b \<longrightarrow> (\<exists>r. child mv a b = Some r \<and> inWindow a b v r)))"
    and "beta \<le> best" and "alpha < beta"
  shows "inWindow alpha beta (foldr min (concat (map tvs mvs)) PosInf) (minLoop child mvs best alpha beta)"
  using assms
proof (induction mvs arbitrary: best beta)
  case Nil
  then show ?case by (auto simp: inWindow_def)
next
  case (Cons mv mvs)
  let ?T = "foldr min (concat (map tvs mvs)) PosInf"
  have chr: "\<And>mv'. mv' \<in> set mvs \<Longrightarrow>
        (tvs mv' = [] \<and> (\<forall>a b. child mv' a b = None)) \<or>
        (\<exists>v. tvs mv' = [v] \<and> (\<forall>a b. a < b \<longrightarrow> (\<exists>r. child mv' a b = Some r \<and> inWindow a b v r)))"
    using Cons.prems(1) by simp
  have mvin: "mv \<in> set (mv # mvs)" by simp
  have "(tvs mv = [] \<and> child mv alpha beta = None) \<or>
        (\<exists>v r. tvs mv = [v] \<and> child mv alpha beta = Some r \<and> inWindow alpha beta v r)"
    using Cons.prems(1)[OF mvin]
  proof
    assume "tvs mv = [] \<and> (\<forall>a b. child mv a b = None)"
    then show ?thesis by simp
  next
    assume "\<exists>v. tvs mv = [v] \<and> (\<forall>a b. a < b \<longrightarrow> (\<exists>r. child mv a b = Some r \<and> inWindow a b v r))"
    then obtain v where v: "tvs mv = [v]"
      and al: "\<forall>a b. a < b \<longrightarrow> (\<exists>r. child mv a b = Some r \<and> inWindow a b v r)" by blast
    from al Cons.prems(3) obtain r where "child mv alpha beta = Some r \<and> inWindow alpha beta v r"
      by blast
    with v show ?thesis by blast
  qed
  then show ?case
  proof (elim disjE exE conjE)
    assume skip: "tvs mv = []" "child mv alpha beta = None"
    then show ?thesis using Cons.IH[OF chr Cons.prems(2,3)] by simp
  next
    fix v r
    assume call: "tvs mv = [v]" "child mv alpha beta = Some r" "inWindow alpha beta v r"
    define b1 where "b1 = min best r"
    define be1 where "be1 = min beta b1"
    define R where "R = minLoop child mvs b1 alpha be1"
    have be1r: "be1 = min beta r" using Cons.prems(2) by (auto simp: be1_def b1_def min_def)
    have bb: "be1 \<le> beta" and rb: "be1 \<le> r" by (simp_all add: be1r)
    have bl: "be1 \<le> b1" by (simp add: be1_def)
    have b1r: "b1 \<le> r" by (simp add: b1_def)
    have unf: "minLoop child (mv # mvs) best alpha beta = (if alpha \<ge> be1 then b1 else R)"
      using call(2) by (simp add: Let_def be1_def b1_def R_def)
    have tv: "foldr min (concat (map tvs (mv # mvs))) PosInf = min v ?T"
      using call(1) by simp
    show ?thesis
    proof (cases "alpha \<ge> be1")
      case True
      have ra: "r \<le> alpha"
      proof (rule ccontr)
        assume "\<not> r \<le> alpha"
        then have "alpha < r" by simp
        then have "alpha < min beta r" using Cons.prems(3) by (simp add: min_less_iff_conj)
        then have "alpha < be1" unfolding be1r .
        then show False using True by simp
      qed
      have "r < best" using Cons.prems(2,3) ra by (meson le_less_trans less_le_trans)
      then have b1e: "b1 = r" by (auto simp: b1_def min_def)
      have vr: "v \<le> r" using call(3) ra by (simp add: inWindow_def)
      have rbeta: "r < beta" using ra Cons.prems(3) by (rule le_less_trans)
      have "inWindow alpha beta (min v ?T) r"
        unfolding inWindow_def using ra vr rbeta by (auto simp: min_def)
      then show ?thesis unfolding unf tv using True b1e by simp
    next
      case False
      then have lt: "alpha < be1" by (rule iffD1[OF not_le])
      have ih: "inWindow alpha be1 ?T R" unfolding R_def by (rule Cons.IH[OF chr bl lt])
      have "R \<le> b1" unfolding R_def by (rule minLoop_le_best)
      then have le: "R \<le> r" using b1r by (rule order.trans)
      have "inWindow alpha beta (min v ?T) R"
        unfolding inWindow_def
      proof (intro conjI impI)
        assume "R \<le> alpha"
        then have "?T \<le> R" using ih by (simp add: inWindow_def)
        then show "min v ?T \<le> R" by (auto simp: min_def)
      next
        assume h: "alpha < R \<and> R < beta"
        show "R = min v ?T"
        proof (cases "be1 \<le> R")
          case True
          then have 1: "R \<le> ?T" using ih by (simp add: inWindow_def)
          have "\<not> beta \<le> r"
          proof
            assume "beta \<le> r"
            then have "be1 = beta" unfolding be1r by (auto simp: min_def)
            then show False using True h by (auto dest: leD)
          qed
          then have rb': "r < beta" by simp
          then have "be1 = r" unfolding be1r by (auto simp: min_def)
          then have Rr: "R = r" using True le by simp
          then have "alpha < r" using h by simp
          then have "r = v" using call(3) rb' by (simp add: inWindow_def)
          then show ?thesis using Rr 1 by (auto simp: min_def)
        next
          case False
          then have g: "R < be1" by simp
          then have RT: "R = ?T" using ih h by (simp add: inWindow_def)
          have "R \<le> v"
          proof (cases "beta \<le> r")
            case True
            then have "r \<le> v" using call(3) by (simp add: inWindow_def)
            with le show ?thesis by (rule order.trans)
          next
            case False
            then have rb': "r < beta" by simp
            have "alpha < r" using h le by (auto elim: less_le_trans)
            then have "r = v" using call(3) rb' by (simp add: inWindow_def)
            then show ?thesis using le by simp
          qed
          then show ?thesis unfolding RT[symmetric] by (auto simp: min_def)
        qed
      next
        assume bR: "beta \<le> R"
        then have "be1 \<le> R" using bb by (rule order.trans[rotated])
        then have 1: "R \<le> ?T" using ih by (simp add: inWindow_def)
        have "beta \<le> r" using bR le by (rule order.trans)
        then have "r \<le> v" using call(3) by (simp add: inWindow_def)
        with le have "R \<le> v" by (rule order.trans)
        then show "R \<le> min v ?T" using 1 by simp
      qed
      then show ?thesis unfolding unf tv using False by simp
    qed
  qed
qed

lemma inWindow_refl: "inWindow a b v v"
  by (simp add: inWindow_def)

lemma alphabeta_inWindow:
  "a < b \<Longrightarrow>
   inWindow a b (minimax st rules depth rootP sP sO repRoot)
                (alphabeta st rules depth a b rootP sP sO repRoot)"
proof (induction st rules depth a b rootP sP sO repRoot rule: alphabeta.induct)
  case (1 st rules depth alpha beta rootP sP sO repRoot)
  show ?case
  proof (cases "depth \<le> 0 \<or> truthy (GameState.terminal st) \<or> length (getValidMoves st rules) = 0")
    case True
    then have "alphabeta st rules depth alpha beta rootP sP sO repRoot =
                 Fin (evalCost st rules rootP sP sO repRoot)"
      by (subst alphabeta.simps) auto
    moreover from True have "minimax st rules depth rootP sP sO repRoot =
                 Fin (evalCost st rules rootP sP sO repRoot)"
      by (subst minimax.simps) auto
    ultimately show ?thesis by (simp add: inWindow_refl)
  next
    case False
    then have c1: "\<not> (depth \<le> 0 \<or> truthy (GameState.terminal st))"
      and c2: "length (getValidMoves st rules) \<noteq> 0" by simp_all
    define child where "child = (\<lambda>mv a b.
               case playMove st rules (int mv) of
                 Inl e \<Rightarrow> None
               | Inr res \<Rightarrow>
                   Some (alphabeta (state res) rules (depth - 1) a b rootP sP sO
                           (if mover res = rootP \<and> extraTurn res then repRoot + 1 else repRoot)))"
    define tvs where "tvs = (\<lambda>mv.
               case playMove st rules (int mv) of
                 Inl e \<Rightarrow> []
               | Inr res \<Rightarrow>
                   [minimax (state res) rules (depth - 1) rootP sP sO
                      (if mover res = rootP \<and> extraTurn res then repRoot + 1 else repRoot)])"
    let ?ord = "orderMoves st rules (getValidMoves st rules)"
    have ab: "alphabeta st rules depth alpha beta rootP sP sO repRoot =
        (if toMove st = rootP then maxLoop child ?ord NegInf alpha beta
         else minLoop child ?ord PosInf alpha beta)"
      using c1 c2 by (subst alphabeta.simps) (simp add: child_def Let_def)
    have mm: "minimax st rules depth rootP sP sO repRoot =
        (if toMove st = rootP then foldr max (concat (map tvs ?ord)) NegInf
         else foldr min (concat (map tvs ?ord)) PosInf)"
      using c1 c2 by (subst minimax.simps) (simp add: tvs_def Let_def)
    have ch: "\<And>mv. mv \<in> set ?ord \<Longrightarrow>
        (tvs mv = [] \<and> (\<forall>a b. child mv a b = None)) \<or>
        (\<exists>v. tvs mv = [v] \<and> (\<forall>a b. a < b \<longrightarrow> (\<exists>r. child mv a b = Some r \<and> inWindow a b v r)))"
    proof -
      fix mv
      show "(tvs mv = [] \<and> (\<forall>a b. child mv a b = None)) \<or>
        (\<exists>v. tvs mv = [v] \<and> (\<forall>a b. a < b \<longrightarrow> (\<exists>r. child mv a b = Some r \<and> inWindow a b v r)))"
      proof (cases "playMove st rules (int mv)")
        case (Inl e)
        then show ?thesis by (simp add: tvs_def child_def)
      next
        case (Inr res)
        have "\<forall>a b. a < b \<longrightarrow> inWindow a b
            (minimax (state res) rules (depth - 1) rootP sP sO
                      (if mover res = rootP \<and> extraTurn res then repRoot + 1 else repRoot))
            (alphabeta (state res) rules (depth - 1) a b rootP sP sO
                      (if mover res = rootP \<and> extraTurn res then repRoot + 1 else repRoot))"
          using "1.IH"[OF c1 c2 Inr] by blast
        then show ?thesis using Inr by (simp add: tvs_def child_def)
      qed
    qed
    show ?thesis
    proof (cases "toMove st = rootP")
      case True
      have "inWindow alpha beta (foldr max (concat (map tvs ?ord)) NegInf)
              (maxLoop child ?ord NegInf alpha beta)"
        by (rule maxLoop_inWindow[OF ch _ "1.prems"]) simp_all
      then show ?thesis using True by (simp add: ab mm)
    next
      case False
      have "inWindow alpha beta (foldr min (concat (map tvs ?ord)) PosInf)
              (minLoop child ?ord PosInf alpha beta)"
        by (rule minLoop_inWindow[OF ch _ "1.prems"]) simp_all
      then show ?thesis using False by (simp add: ab mm)
    qed
  qed
qed

lemma inWindow_full: "inWindow NegInf PosInf v r \<Longrightarrow> r = v"
proof (cases r)
  case NegInf
  assume "inWindow NegInf PosInf v r"
  then have "v \<le> NegInf" using NegInf by (simp add: inWindow_def)
  then show ?thesis using NegInf by (cases v) simp_all
next
  case (Fin x)
  assume "inWindow NegInf PosInf v r"
  then show ?thesis using Fin by (simp add: inWindow_def less_Score_def)
next
  case PosInf
  assume "inWindow NegInf PosInf v r"
  then have "PosInf \<le> v" using PosInf by (simp add: inWindow_def)
  then show ?thesis using PosInf by (cases v) simp_all
qed

lemma alphabeta_full_window:
  "alphabeta st rules depth NegInf PosInf rootP sP sO repRoot = minimax st rules depth rootP sP sO repRoot"
proof -
  have "NegInf < PosInf" by (simp add: less_Score_def)
  from alphabeta_inWindow[OF this] show ?thesis by (rule inWindow_full)
qed

lemma fold_max_less:
  "\<forall>x\<in>set xs. x < m \<Longrightarrow> b < m \<Longrightarrow> fold max xs b < (m::Score)"
  by (induction xs arbitrary: b) simp_all

lemma Score_PosInf_le: "PosInf \<le> x \<Longrightarrow> x = PosInf"
  by (cases x) simp_all

lemma Score_not_PosInf: "x \<noteq> PosInf \<Longrightarrow> x < PosInf"
  by (cases x) (simp_all add: less_Score_def)

lemma window_step:
  assumes "A < PosInf \<longrightarrow> inWindow A PosInf t v"
  shows "max v A = max t A" and "A < t \<Longrightarrow> v = t"
proof -
  show "max v A = max t A"
  proof (cases "A = PosInf")
    case True
    then show ?thesis by (simp add: max_def)
  next
    case False
    then have w: "inWindow A PosInf t v" using assms Score_not_PosInf by blast
    show ?thesis
    proof (cases "v \<le> A")
      case True
      then have "t \<le> v" using w by (simp add: inWindow_def)
      then have "t \<le> A" using True by (rule order.trans)
      then show ?thesis using True by (simp add: max_def)
    next
      case False
      then have av: "A < v" by simp
      show ?thesis
      proof (cases "v = PosInf")
        case True
        then have "PosInf \<le> t" using w by (simp add: inWindow_def)
        then have "t = PosInf" by (rule Score_PosInf_le)
        then show ?thesis using True by simp
      next
        case False
        then have "v < PosInf" by (rule Score_not_PosInf)
        then have "v = t" using w av by (simp add: inWindow_def)
        then show ?thesis by simp
      qed
    qed
  qed
  show "v = t" if at: "A < t"
  proof -
    have "A < PosInf" using at by (meson Score_le_PosInf less_le_trans)
    then have w: "inWindow A PosInf t v" using assms by blast
    have "\<not> v \<le> A"
    proof
      assume "v \<le> A"
      then have "t \<le> v" using w by (simp add: inWindow_def)
      then have "t \<le> A" using \<open>v \<le> A\<close> by (rule order.trans)
      then show False using at by (auto dest: leD)
    qed
    then have av: "A < v" by simp
    show ?thesis
    proof (cases "v = PosInf")
      case True
      then have "PosInf \<le> t" using w by (simp add: inWindow_def)
      then have "t = PosInf" by (rule Score_PosInf_le)
      then show ?thesis using True by simp
    next
      case False
      then have "v < PosInf" by (rule Score_not_PosInf)
      then show ?thesis using w av by (simp add: inWindow_def)
    qed
  qed
qed

lemma prefix_max_agree:
  assumes chain: "\<forall>k<length cs. rcAlpha (cs ! k) = fold max (map rcVal (take k cs)) NegInf"
    and win: "\<forall>c\<in>set cs. rcAlpha c < PosInf \<longrightarrow> inWindow (rcAlpha c) PosInf (t c) (rcVal c)"
  shows "k \<le> length cs \<Longrightarrow>
         fold max (map rcVal (take k cs)) NegInf = fold max (map t (take k cs)) NegInf"
proof (induction k)
  case 0
  then show ?case by simp
next
  case (Suc k)
  then have k: "k < length cs" by simp
  then have ih: "fold max (map rcVal (take k cs)) NegInf = fold max (map t (take k cs)) NegInf"
    using Suc.IH by simp
  let ?A = "fold max (map rcVal (take k cs)) NegInf"
  have al: "rcAlpha (cs ! k) = ?A" using chain k by blast
  have "cs ! k \<in> set cs" using k by (rule nth_mem)
  then have "?A < PosInf \<longrightarrow> inWindow ?A PosInf (t (cs ! k)) (rcVal (cs ! k))"
    using win al by (metis (no_types, lifting))
  then have "max (rcVal (cs ! k)) ?A = max (t (cs ! k)) ?A" by (rule window_step(1))
  then show ?case using k ih by (simp add: take_Suc_conv_app_nth)
qed

lemma first_max_agree:
  assumes chain: "\<forall>k<length cs. rcAlpha (cs ! k) = fold max (map rcVal (take k cs)) NegInf"
    and win: "\<forall>c\<in>set cs. rcAlpha c < PosInf \<longrightarrow> inWindow (rcAlpha c) PosInf (t c) (rcVal c)"
    and k: "k < length cs"
    and tk: "t (cs ! k) = fold max (map t cs) NegInf" "NegInf < t (cs ! k)"
      "\<forall>j<k. t (cs ! j) < t (cs ! k)"
  shows "rcVal (cs ! k) = fold max (map rcVal cs) NegInf \<and> NegInf < rcVal (cs ! k) \<and>
         (\<forall>j<k. rcVal (cs ! j) < rcVal (cs ! k))"
proof -
  note agree = prefix_max_agree[OF chain win]
  let ?A = "fold max (map rcVal (take k cs)) NegInf"
  have pre: "\<And>i. i \<le> k \<Longrightarrow> fold max (map t (take i cs)) NegInf < t (cs ! k)"
  proof -
    fix i assume i: "i \<le> k"
    have "\<forall>x\<in>set (map t (take i cs)). x < t (cs ! k)"
    proof
      fix x assume "x \<in> set (map t (take i cs))"
      then obtain j where j: "j < length (take i cs)" and x: "x = t (take i cs ! j)"
        by (auto simp: in_set_conv_nth)
      then have "j < k" using i by simp
      moreover have "take i cs ! j = cs ! j" using j by simp
      ultimately show "x < t (cs ! k)" using tk(3) x by simp
    qed
    then show "fold max (map t (take i cs)) NegInf < t (cs ! k)"
      using tk(2) by (rule fold_max_less)
  qed
  have Ak: "?A < t (cs ! k)" using pre[of k] agree[of k] k by simp
  have al: "rcAlpha (cs ! k) = ?A" using chain k by blast
  have "cs ! k \<in> set cs" using k by (rule nth_mem)
  then have "?A < PosInf \<longrightarrow> inWindow ?A PosInf (t (cs ! k)) (rcVal (cs ! k))"
    using win al by (metis (no_types, lifting))
  then have vk: "rcVal (cs ! k) = t (cs ! k)" using Ak by (rule window_step(2))
  have 1: "rcVal (cs ! k) = fold max (map rcVal cs) NegInf"
    using agree[of "length cs"] tk(1) vk by simp
  have 2: "NegInf < rcVal (cs ! k)" using tk(2) vk by simp
  have 3: "\<forall>j<k. rcVal (cs ! j) < rcVal (cs ! k)"
  proof (intro allI impI)
    fix j assume j: "j < k"
    then have jl: "Suc j \<le> length cs" "j < length cs" using k by simp_all
    have "rcVal (cs ! j) \<in> set (map rcVal (take (Suc j) cs))"
      using jl by (simp add: take_Suc_conv_app_nth)
    then have "rcVal (cs ! j) \<le> fold max (map rcVal (take (Suc j) cs)) NegInf"
      by (rule fold_max_ge_elem)
    also have "\<dots> = fold max (map t (take (Suc j) cs)) NegInf" by (rule agree[OF jl(1)])
    also have "\<dots> < t (cs ! k)" using j by (intro pre) simp
    finally show "rcVal (cs ! j) < rcVal (cs ! k)" using vk by simp
  qed
  from 1 2 3 show ?thesis by (intro conjI)
qed

lemma rootCallOK_window:
  assumes "rootCallOK st rules (if depth \<le> 0 then 1 else depth) c"
  shows "rcAlpha c < PosInf \<longrightarrow>
         inWindow (rcAlpha c) PosInf (candidateScore st rules depth (rcMove c)) (rcVal c)"
proof
  assume lt: "rcAlpha c < PosInf"
  from assms obtain res where r: "playMove st rules (int (rcMove c)) = Inr res"
    and rep: "rcRepRoot c = (if extraTurn res then 1 else 0)"
    and val: "rcVal c = alphabeta (state res) rules ((if depth \<le> 0 then 1 else depth) - 1) (rcAlpha c) PosInf
               (toMove st) (store st ! toMove st) (store st ! (1 - toMove st)) (rcRepRoot c)"
    unfolding rootCallOK_def by (elim conjE exE)
  have mo: "mover res = toMove st" using playMove_Inr[OF r] by simp
  have cs: "candidateScore st rules depth (rcMove c) =
      minimax (state res) rules ((if depth \<le> 0 then 1 else depth) - 1)
        (toMove st) (store st ! toMove st) (store st ! (1 - toMove st)) (rcRepRoot c)"
    unfolding candidateScore_def r rep by (simp add: mo alphabeta_full_window)
  show "inWindow (rcAlpha c) PosInf (candidateScore st rules depth (rcMove c)) (rcVal c)"
    unfolding cs val by (rule alphabeta_inWindow[OF lt])
qed

lemma bestMove_calls_law:
  assumes "wellFormed rules st" and "getValidMoves st rules \<noteq> []"
  shows
    "map rcMove (rootCalls st rules depth) = orderMoves st rules (getValidMoves st rules) \<and>
     rcAlpha (rootCalls st rules depth ! 0) = NegInf \<and>
     (\<forall>k<length (rootCalls st rules depth).
        rcAlpha (rootCalls st rules depth ! k) =
          fold max (map rcVal (take k (rootCalls st rules depth))) NegInf \<and>
        rcBeta (rootCalls st rules depth ! k) = PosInf \<and>
        (\<exists>res. playMove st rules (int (rcMove (rootCalls st rules depth ! k))) = Inr res \<and>
           (rcRepRoot (rootCalls st rules depth ! k) = 1 \<longleftrightarrow> extraTurn res) \<and>
           (rcRepRoot (rootCalls st rules depth ! k) = 0 \<longleftrightarrow> \<not> extraTurn res) \<and>
           rcVal (rootCalls st rules depth ! k) =
             alphabeta (state res) rules ((if depth \<le> 0 then 1 else depth) - 1)
               (rcAlpha (rootCalls st rules depth ! k)) PosInf
               (toMove st) (store st ! toMove st) (store st ! (1 - toMove st))
               (rcRepRoot (rootCalls st rules depth ! k)))) \<and>
     hasMove (bestMove st rules depth) \<and>
     score (bestMove st rules depth) = fold max (map rcVal (rootCalls st rules depth)) NegInf \<and>
     (\<forall>k<length (rootCalls st rules depth).
        rcVal (rootCalls st rules depth ! k) = score (bestMove st rules depth) \<and>
        NegInf < rcVal (rootCalls st rules depth ! k) \<and>
        (\<forall>j<k. rcVal (rootCalls st rules depth ! j) < rcVal (rootCalls st rules depth ! k)) \<longrightarrow>
        move (bestMove st rules depth) = int (rcMove (rootCalls st rules depth ! k)))"
proof -
  let ?calls = "rootCalls st rules depth"
  let ?ord = "orderMoves st rules (getValidMoves st rules)"
  let ?init = "(int (getValidMoves st rules ! 0), NegInf)"
  note f = bestMoveRun_facts[OF assms(2), of depth]
  have pk: "(move (bestMove st rules depth), score (bestMove st rules depth)) = fold pickStep ?calls ?init"
    by (rule f(2))
  have "\<forall>mv\<in>set ?ord. \<not> isl (playMove st rules (int mv))"
    unfolding orderMoves_set using getValidMoves_succeed by blast
  then have "filter (\<lambda>mv. \<not> isl (playMove st rules (int mv))) ?ord = ?ord"
    by (simp only: filter_True)
  then have m: "map rcMove ?calls = ?ord" using f(3) by simp
  have "set ?ord \<noteq> {}" unfolding orderMoves_set using assms(2) by simp
  then have "?ord \<noteq> []" by auto
  then have "map rcMove ?calls \<noteq> []" unfolding m .
  then have len: "0 < length ?calls" by simp
  have a0: "rcAlpha (?calls ! 0) = NegInf"
    using f(5)[rule_format, OF len] by simp
  have sc: "score (bestMove st rules depth) = fold max (map rcVal ?calls) NegInf"
  proof -
    have "score (bestMove st rules depth) = snd (fold pickStep ?calls ?init)"
      unfolding pk[symmetric] by simp
    then show ?thesis unfolding fold_pickStep_score .
  qed
  have each: "\<forall>k<length ?calls.
        rcAlpha (?calls ! k) = fold max (map rcVal (take k ?calls)) NegInf \<and>
        rcBeta (?calls ! k) = PosInf \<and>
        (\<exists>res. playMove st rules (int (rcMove (?calls ! k))) = Inr res \<and>
           (rcRepRoot (?calls ! k) = 1 \<longleftrightarrow> extraTurn res) \<and>
           (rcRepRoot (?calls ! k) = 0 \<longleftrightarrow> \<not> extraTurn res) \<and>
           rcVal (?calls ! k) =
             alphabeta (state res) rules ((if depth \<le> 0 then 1 else depth) - 1)
               (rcAlpha (?calls ! k)) PosInf
               (toMove st) (store st ! toMove st) (store st ! (1 - toMove st))
               (rcRepRoot (?calls ! k)))"
  proof (intro allI impI)
    fix k assume k: "k < length ?calls"
    then have "?calls ! k \<in> set ?calls" by (rule nth_mem)
    with f(4) have "rootCallOK st rules (if depth \<le> 0 then 1 else depth) (?calls ! k)"
      by (rule bspec)
    note d = rootCallOK_D[OF this]
    show "rcAlpha (?calls ! k) = fold max (map rcVal (take k ?calls)) NegInf \<and>
        rcBeta (?calls ! k) = PosInf \<and>
        (\<exists>res. playMove st rules (int (rcMove (?calls ! k))) = Inr res \<and>
           (rcRepRoot (?calls ! k) = 1 \<longleftrightarrow> extraTurn res) \<and>
           (rcRepRoot (?calls ! k) = 0 \<longleftrightarrow> \<not> extraTurn res) \<and>
           rcVal (?calls ! k) =
             alphabeta (state res) rules ((if depth \<le> 0 then 1 else depth) - 1)
               (rcAlpha (?calls ! k)) PosInf
               (toMove st) (store st ! toMove st) (store st ! (1 - toMove st))
               (rcRepRoot (?calls ! k)))"
      by (rule conjI[OF f(5)[rule_format, OF k] d])
  qed
  have mvk: "\<forall>k<length ?calls.
        rcVal (?calls ! k) = score (bestMove st rules depth) \<and> NegInf < rcVal (?calls ! k) \<and>
        (\<forall>j<k. rcVal (?calls ! j) < rcVal (?calls ! k)) \<longrightarrow>
        move (bestMove st rules depth) = int (rcMove (?calls ! k))"
  proof (intro allI impI)
    fix k assume k: "k < length ?calls"
      and h: "rcVal (?calls ! k) = score (bestMove st rules depth) \<and> NegInf < rcVal (?calls ! k) \<and>
        (\<forall>j<k. rcVal (?calls ! j) < rcVal (?calls ! k))"
    from h have h1: "rcVal (?calls ! k) = fold max (map rcVal ?calls) NegInf" unfolding sc by (rule conjunct1)
    from h have h2: "NegInf < rcVal (?calls ! k)" by (elim conjE)
    from h have h3: "\<forall>j<k. rcVal (?calls ! j) < rcVal (?calls ! k)" by (elim conjE)
    have "fst (fold pickStep ?calls ?init) = int (rcMove (?calls ! k))"
      by (rule fold_pickStep_move[OF k h1 h2 h3])
    then show "move (bestMove st rules depth) = int (rcMove (?calls ! k))"
      unfolding pk[symmetric] by simp
  qed
  show ?thesis
    by (intro conjI m a0 each f(1) sc mvk)
qed






lemma weighted_replicate_zero [simp]: "weighted (replicate n 0) = 0"
  by (simp add: weighted_def)










lemma deref_toMoveOf [simp]: "deref h (ns\<lparr>toMoveOf := t\<rparr>) = (deref h ns)\<lparr>toMove := t\<rparr>"
  by (simp add: deref_def)

lemma ownArrays_toMoveOf [simp]: "ownArrays L h (ns\<lparr>toMoveOf := t\<rparr>) = ownArrays L h ns"
  by (simp add: ownArrays_def)




























lemma validRef_heapOf:
  assumes "wellFormed rules st" and "GameState.terminal st = None"
  shows "validRef rules (heapOf st) (refOf st)" and "deref (heapOf st) (refOf st) = st"
proof -
  have l: "length (pits st) = 2" using assms(1) by (simp add: wellFormed_def shaped_def)
  then have p: "pits st = [pits st ! 0, pits st ! 1]"
    by (cases "pits st"; cases "tl (pits st)") auto
  show d: "deref (heapOf st) (refOf st) = st"
    using assms(2) p by (cases st) (simp add: deref_def heapOf_def refOf_def)
  show "validRef rules (heapOf st) (refOf st)"
    unfolding validRef_def d using assms(1) by (simp add: heapOf_def refOf_def)
qed

section \<open>The claims\<close>

text \<open>
  C1 (seed conservation): along every sequence of successful moves from
  \<open>initStandard rules startSide\<close>, every state met, the swept ones included, holds
  \<open>2 * pitsPerSide * seedsPerPit\<close> seeds in its pits and stores.
\<close>

theorem seed_conservation:
  assumes "playLine (initStandard rules startSide) rules ps = Some sts" and "st \<in> set sts"
  shows "totalSeeds st = 2 * int (pitsPerSide rules) * int (seedsPerPit rules)"
  using playLine_valid[OF initStandard_valid assms] initStandard_total by simp

text \<open>
  Two moves of side 0 (an extra turn, then a capture that ends the game and is followed
  by the sweep) keep the four seeds of the board.
\<close>

theorem seed_conservation_witness:
  "playLine (initStandard kalah2 0) kalah2 [1, 0] =
     Some [\<lparr> pits = [[1, 1], [1, 1]], store = [0, 0], toMove = 0, terminal = None \<rparr>,
           \<lparr> pits = [[1, 0], [1, 1]], store = [1, 0], toMove = 0, terminal = None \<rparr>,
           \<lparr> pits = [[0, 0], [0, 0]], store = [3, 1], toMove = 1, terminal = None \<rparr>] \<and>
   totalSeeds \<lparr> pits = [[0, 0], [0, 0]], store = [3, 1], toMove = 1, terminal = None \<rparr> = 4"
proof -
  have e: "playLine (initStandard kalah2 0) kalah2 [1, 0] =
     Some [\<lparr> pits = [[1, 1], [1, 1]], store = [0, 0], toMove = 0, terminal = None \<rparr>,
           \<lparr> pits = [[1, 0], [1, 1]], store = [1, 0], toMove = 0, terminal = None \<rparr>,
           \<lparr> pits = [[0, 0], [0, 0]], store = [3, 1], toMove = 1, terminal = None \<rparr>]"
    by code_simp
  from seed_conservation[OF e, of "\<lparr> pits = [[0, 0], [0, 0]], store = [3, 1], toMove = 1, terminal = None \<rparr>"] e
  show ?thesis by (simp add: kalah2_def)
qed

text \<open>
  C3 (sowing path): a successful move on a valid state whose source pit holds \<open>seeds\<close>
  seeds produces a path of exactly \<open>seeds\<close> entries, which is the circular sequence of
  the specification started at \<open>(pitIndex + 1) mod (2n + 1)\<close>, and a store entry of
  the path is always the mover's own store.
\<close>

theorem sow_path_law:
  assumes "validState rules st" and "playMove st rules p = Inr res"
  shows "int (length (path res)) = pits st ! mover res ! nat p \<and>
         map Some (path res) =
           specPath (pitsPerSide rules) (mover res) (nat p) (nat (pits st ! mover res ! nat p)) \<and>
         (\<forall>s. StoreLoc s \<in> set (path res) \<longrightarrow> s = mover res)"
proof -
  let ?n = "pitsPerSide rules" and ?who = "toMove st"
  from playMove_Inr[OF assms(2)]
  have p: "nat p < ?n" and pa: "path res = sowPath st rules ?who (nat p)" and mo: "mover res = ?who"
    by auto
  have sh: "shaped ?n st" and who: "?who < 2" and nn: "nonNegative st"
    using assms(1) by (simp_all add: validState_def wellFormed_def)
  have hand: "0 \<le> pits st ! ?who ! nat p" using nonNegative_pit[OF sh nn who p] .
  have len: "length (path res) = nat (pits st ! ?who ! nat p)"
    by (simp add: pa sowPath_length)
  have "map Some (path res) = specPath ?n ?who (nat p) (length (path res))"
  proof (rule nth_equalityI)
    show "length (map Some (path res)) = length (specPath ?n ?who (nat p) (length (path res)))"
      by (simp add: specPath_def)
  next
    fix k assume "k < length (map Some (path res))"
    then have k: "k < length (sowPath st rules ?who (nat p))" by (simp add: pa)
    have le: "(nat p + 1 + k) mod (2 * ?n + 1) \<le> 2 * ?n"
      using mod_less_divisor[of "2 * ?n + 1" "nat p + 1 + k"] by simp
    show "map Some (path res) ! k = specPath ?n ?who (nat p) (length (path res)) ! k"
      using k sowPath_nth[OF k] specPosition_ringLoc[OF le, of ?who]
      by (simp add: pa specPath_def)
  qed
  with len hand mo pa sowPath_store show ?thesis by auto
qed

theorem sow_path_law_witness:
  "validState kalah2 \<lparr> pits = [[6, 0], [1, 1]], store = [0, 0], toMove = 0, terminal = None \<rparr> \<and>
   path (projr (playMove \<lparr> pits = [[6, 0], [1, 1]], store = [0, 0], toMove = 0, terminal = None \<rparr> kalah2 0)) =
     [PitLoc 0 1, StoreLoc 0, PitLoc 1 0, PitLoc 1 1, PitLoc 0 0, PitLoc 0 1] \<and>
   specPath 2 0 0 6 =
     [Some (PitLoc 0 1), Some (StoreLoc 0), Some (PitLoc 1 0), Some (PitLoc 1 1),
      Some (PitLoc 0 0), Some (PitLoc 0 1)]"
proof -
  let ?s = "\<lparr> pits = [[6, 0], [1, 1]], store = [0, 0], toMove = 0, terminal = None \<rparr> :: int GameState"
  have v: "validState kalah2 ?s" by code_simp
  obtain res where e: "playMove ?s kalah2 0 = Inr res"
    using playMove_succeeds[of 0 kalah2 ?s] by (auto simp: kalah2_def)
  have m: "mover res = 0" and pp: "pitsPerSide kalah2 = 2"
    using playMove_Inr[OF e] by (simp_all add: kalah2_def)
  have sp: "specPath 2 0 0 6 =
     [Some (PitLoc 0 1), Some (StoreLoc 0), Some (PitLoc 1 0), Some (PitLoc 1 1),
      Some (PitLoc 0 0), Some (PitLoc 0 1)]" by code_simp
  from sow_path_law[OF v e] have "map Some (path res) = specPath 2 0 0 6"
    by (simp add: m pp)
  with sp have "path res = [PitLoc 0 1, StoreLoc 0, PitLoc 1 0, PitLoc 1 1, PitLoc 0 0, PitLoc 0 1]"
    by (auto simp: map_eq_Cons_conv)
  with v e sp show ?thesis by simp
qed

text \<open>
  C4 (extra-turn law): after a successful move the side to move is the mover exactly
  when \<open>extraTurnOnStore\<close> is enabled and the last entry of the sow path is the mover's
  own store, which is exactly when the result's \<open>extraTurn\<close> flag is set; in every
  other case, the empty path of a zero-seed move included, the turn passes to the
  opponent.
\<close>

theorem extra_turn_law:
  assumes "wellFormed rules st" and "playMove st rules p = Inr res"
  shows "(toMove (state res) = mover res \<longleftrightarrow>
            extraTurnOnStore rules \<and> path res \<noteq> [] \<and> last (path res) = StoreLoc (mover res)) \<and>
         (extraTurn res \<longleftrightarrow>
            extraTurnOnStore rules \<and> path res \<noteq> [] \<and> last (path res) = StoreLoc (mover res)) \<and>
         (\<not> (extraTurnOnStore rules \<and> path res \<noteq> [] \<and> last (path res) = StoreLoc (mover res))
            \<longrightarrow> toMove (state res) = 1 - mover res) \<and>
         (path res = [] \<longrightarrow> toMove (state res) = 1 - mover res)"
proof -
  from playMove_Inr[OF assms(2)]
  have st': "state res = finalizeIfTerminal
       ((fst (sowAndCapture st rules (nat p)))
          \<lparr> toMove := (if extraTurn res then toMove st else 1 - toMove st) \<rparr>) rules"
    and pa: "path res = sowPath st rules (toMove st) (nat p)"
    and mo: "mover res = toMove st"
    and ex: "extraTurn res = (extraTurnOnStore rules \<and>
               fst (snd (sowAndCapture st rules (nat p))) = Some (StoreLoc (toMove st)))"
    by auto
  have tm: "toMove (state res) = (if extraTurn res then toMove st else 1 - toMove st)"
    by (simp add: st' finalizeIfTerminal_toMove)
  have who: "toMove st < 2" using assms(1) by (simp add: wellFormed_def)
  then have ne: "1 - toMove st \<noteq> toMove st" by (auto dest!: lt2_cases)
  have ex': "extraTurn res \<longleftrightarrow>
      extraTurnOnStore rules \<and> path res \<noteq> [] \<and> last (path res) = StoreLoc (mover res)"
    by (auto simp: ex sowAndCapture_last pa mo)
  show ?thesis using tm ne ex' mo by auto
qed

theorem extra_turn_law_witness:
  "wellFormed kalah2 (initStandard kalah2 0) \<and>
   playMove (initStandard kalah2 0) kalah2 1 =
     Inr \<lparr> state = \<lparr> pits = [[1, 0], [1, 1]], store = [1, 0], toMove = 0, terminal = None \<rparr>,
           path = [StoreLoc 0], mover = 0, pitIndex = 1, extraTurn = True,
           capture = noCapture, terminal = False \<rparr> \<and>
   toMove \<lparr> pits = [[1, 0], [1, 1]], store = [1, 0], toMove = 0, terminal = None \<rparr> = 0"
proof -
  have w: "wellFormed kalah2 (initStandard kalah2 0)" by code_simp
  have e: "playMove (initStandard kalah2 0) kalah2 1 =
     Inr \<lparr> state = \<lparr> pits = [[1, 0], [1, 1]], store = [1, 0], toMove = 0, terminal = None \<rparr>,
           path = [StoreLoc 0], mover = 0, pitIndex = 1, extraTurn = True,
           capture = noCapture, terminal = False \<rparr>"
    by code_simp
  from extra_turn_law[OF w e] w e show ?thesis by simp
qed

text \<open>
  C8 (sweep law): on a terminal state with \<open>sweepOnGameEnd\<close>, \<open>finalizeIfTerminal\<close>
  returns a state whose pits are all zero and in which each store is that side's store
  plus the sum of that side's own pits; otherwise it returns the state unchanged.
\<close>

theorem sweep_law:
  assumes "wellFormed rules st"
  shows "(isTerminal st rules \<and> sweepOnGameEnd rules \<longrightarrow>
            (\<forall>side<2. (\<forall>i<pitsPerSide rules. pits (finalizeIfTerminal st rules) ! side ! i = 0) \<and>
                       length (pits (finalizeIfTerminal st rules) ! side) = pitsPerSide rules \<and>
                       store (finalizeIfTerminal st rules) ! side =
                         store st ! side + sum_list (pits st ! side)) \<and>
            toMove (finalizeIfTerminal st rules) = toMove st) \<and>
         (\<not> (isTerminal st rules \<and> sweepOnGameEnd rules) \<longrightarrow> finalizeIfTerminal st rules = st)"
proof -
  have sh: "shaped (pitsPerSide rules) st" using assms by (simp add: wellFormed_def)
  show ?thesis
    by (auto simp: finalizeIfTerminal_eq[OF sh] dest!: lt2_cases)
qed

theorem sweep_law_witness:
  "wellFormed kalah2 \<lparr> pits = [[1, 2], [0, 0]], store = [4, 5], toMove = 0, terminal = None \<rparr> \<and>
   isTerminal \<lparr> pits = [[1, 2], [0, 0]], store = [4, 5], toMove = 0, terminal = None \<rparr> kalah2 \<and>
   store (finalizeIfTerminal \<lparr> pits = [[1, 2], [0, 0]], store = [4, 5], toMove = 0, terminal = None \<rparr> kalah2) ! 0 = 7 \<and>
   store (finalizeIfTerminal \<lparr> pits = [[1, 2], [0, 0]], store = [4, 5], toMove = 0, terminal = None \<rparr> kalah2) ! 1 = 5"
proof -
  let ?s = "\<lparr> pits = [[1, 2], [0, 0]], store = [4, 5], toMove = 0, terminal = None \<rparr> :: int GameState"
  have w: "wellFormed kalah2 ?s" by code_simp
  have t: "isTerminal ?s kalah2" by code_simp
  have sw: "sweepOnGameEnd kalah2" by (simp add: kalah2_def)
  from sweep_law[OF w] t sw
  have "\<forall>side<2. store (finalizeIfTerminal ?s kalah2) ! side = store ?s ! side + sum_list (pits ?s ! side)"
    by blast
  then have "store (finalizeIfTerminal ?s kalah2) ! 0 = store ?s ! 0 + sum_list (pits ?s ! 0)"
    and "store (finalizeIfTerminal ?s kalah2) ! 1 = store ?s ! 1 + sum_list (pits ?s ! 1)"
    by simp_all
  with w t show ?thesis by simp
qed

text \<open>
  C10 (unchecked construction): \<open>initFromArrays\<close> checks the lengths of the two pit
  arrays and nothing else. Arrays of length \<open>pitsPerSide\<close> are copied whatever their
  elements are (the statement holds at every element type), the two stores are coerced
  by \<open>| 0\<close>, that is truncated toward zero and wrapped into the signed 32-bit range,
  and for every configuration some successfully constructed state has a negative count
  and a seed total other than \<open>2 * pitsPerSide * seedsPerPit\<close>.
\<close>

theorem initFromArrays_unchecked:
  "(initFromArrays rules pits0 pits1 store0 store1 side = Inl Pits0WrongLength
      \<longleftrightarrow> length pits0 \<noteq> pitsPerSide rules) \<and>
   (initFromArrays rules pits0 pits1 store0 store1 side = Inl Pits1WrongLength
      \<longleftrightarrow> length pits0 = pitsPerSide rules \<and> length pits1 \<noteq> pitsPerSide rules) \<and>
   (length pits0 = pitsPerSide rules \<and> length pits1 = pitsPerSide rules \<longrightarrow>
      initFromArrays rules pits0 pits1 store0 store1 side =
        Inr \<lparr> pits = [pits0, pits1],
              store = [(truncRat store0 + 2 ^ 31) mod 2 ^ 32 - 2 ^ 31,
                       (truncRat store1 + 2 ^ 31) mod 2 ^ 32 - 2 ^ 31],
              toMove = (if side = 1 then 1 else 0), terminal = None \<rparr>) \<and>
   (\<exists>st. initFromArrays rules (replicate (pitsPerSide rules) (- 1)) (replicate (pitsPerSide rules) 0)
            (- 1) 0 0 = Inr st \<and>
         \<not> nonNegative st \<and>
         totalSeeds st \<noteq> 2 * int (pitsPerSide rules) * int (seedsPerPit rules))"
proof -
  have neg: "- int (pitsPerSide rules) - 1 \<noteq> 2 * int (pitsPerSide rules) * int (seedsPerPit rules)"
  proof -
    have "0 \<le> 2 * int (pitsPerSide rules) * int (seedsPerPit rules)" by simp
    moreover have "- int (pitsPerSide rules) - 1 < 0" by simp
    ultimately show ?thesis by linarith
  qed
  have ex: "\<exists>st. initFromArrays rules (replicate (pitsPerSide rules) (- 1)) (replicate (pitsPerSide rules) 0)
            (- 1) 0 0 = Inr st \<and>
         \<not> nonNegative st \<and>
         totalSeeds st \<noteq> 2 * int (pitsPerSide rules) * int (seedsPerPit rules)"
    using neg
    by (simp add: initFromArrays_def Let_def nonNegative_def totalSeeds_def sum_list_replicate
        toInt32_minus_one toInt32_zero)
  show ?thesis
    using ex by (simp add: initFromArrays_def Let_def toInt32_eq)
qed

text \<open>
  Non-integer and negative pit entries pass, \<open>2.5\<close> and \<open>-3.5\<close> are truncated toward
  zero, and a state with a negative pit is built from integer arrays.
\<close>

theorem initFromArrays_unchecked_witness:
  "initFromArrays kalah2 [1 / 2, - 3] [0, 7 / 3 :: rat] (5 / 2) (- 7 / 2) 1 =
     Inr \<lparr> pits = [[1 / 2, - 3], [0, 7 / 3]], store = [2, - 3], toMove = 1, terminal = None \<rparr> \<and>
   initFromArrays kalah2 [- 1, 7] [0, 0 :: int] 2147483648 4294967301 0 =
     Inr \<lparr> pits = [[- 1, 7], [0, 0]], store = [- 2147483648, 5], toMove = 0, terminal = None \<rparr> \<and>
   \<not> nonNegative \<lparr> pits = [[- 1, 7], [0, 0]], store = [- 2147483648, 5], toMove = 0, terminal = None \<rparr>"
proof -
  have a: "length [1 / 2, - 3 :: rat] = pitsPerSide kalah2 \<and> length [0, 7 / 3 :: rat] = pitsPerSide kalah2"
    by (simp add: kalah2_def)
  have b: "length [- 1, 7 :: int] = pitsPerSide kalah2 \<and> length [0, 0 :: int] = pitsPerSide kalah2"
    by (simp add: kalah2_def)
  have t: "truncRat (5 / 2) = 2" "truncRat (- (7 / 2)) = - 3" "truncRat 2147483648 = 2147483648"
    "truncRat 4294967301 = 4294967301"
    by code_simp+
  have n: "\<not> nonNegative \<lparr> pits = [[- 1, 7], [0, 0]], store = [- 2147483648, 5], toMove = 0, terminal = None \<rparr>"
    by (simp add: nonNegative_def)
  from initFromArrays_unchecked[of kalah2 "[1 / 2, - 3 :: rat]" "[0, 7 / 3]" "5 / 2" "- 7 / 2" 1] a
  have 1: "initFromArrays kalah2 [1 / 2, - 3] [0, 7 / 3 :: rat] (5 / 2) (- 7 / 2) 1 =
     Inr \<lparr> pits = [[1 / 2, - 3], [0, 7 / 3]], store = [2, - 3], toMove = 1, terminal = None \<rparr>"
    by (simp add: t)
  from initFromArrays_unchecked[of kalah2 "[- 1, 7 :: int]" "[0, 0]" 2147483648 4294967301 0] b
  have 2: "initFromArrays kalah2 [- 1, 7] [0, 0 :: int] 2147483648 4294967301 0 =
     Inr \<lparr> pits = [[- 1, 7], [0, 0]], store = [- 2147483648, 5], toMove = 0, terminal = None \<rparr>"
    by (simp add: t)
  from 1 2 n show ?thesis by simp
qed

text \<open>
  C5 (search base case): \<open>alphabeta\<close> returns the leaf evaluation when
  \<open>depth \<le> 0\<close> and when the state has no legal move, but its test of a terminal
  state reads the property \<open>terminal\<close> of the state object, which no state returned by
  \<open>playMove\<close> carries. With \<open>sweepOnGameEnd\<close> off, the move of pit 1 below empties
  side 0; the resulting state is terminal, side 1 still has moves, and at depth 1 the
  search expands it and returns 5 where the leaf evaluation is 15. This is the one call
  \<open>bestMove\<close> makes at depth 2 on the position before that move.
\<close>

theorem alphabeta_expands_terminal_state:
  "playMove \<lparr> pits = [[0, 2], [1, 1]], store = [0, 0], toMove = 0, terminal = None \<rparr>
      (kalah2\<lparr> sweepOnGameEnd := False \<rparr>) 1 =
     Inr \<lparr> state = \<lparr> pits = [[0, 0], [2, 1]], store = [1, 0], toMove = 1, terminal = None \<rparr>,
           path = [StoreLoc 0, PitLoc 1 0], mover = 0, pitIndex = 1, extraTurn = False,
           capture = noCapture, terminal = True \<rparr> \<and>
   rootCalls \<lparr> pits = [[0, 2], [1, 1]], store = [0, 0], toMove = 0, terminal = None \<rparr>
      (kalah2\<lparr> sweepOnGameEnd := False \<rparr>) 2 =
     [\<lparr> rcMove = 1, rcAlpha = NegInf, rcBeta = PosInf, rcRepRoot = 0, rcVal = Fin 5 \<rparr>] \<and>
   isTerminal \<lparr> pits = [[0, 0], [2, 1]], store = [1, 0], toMove = 1, terminal = None \<rparr>
     (kalah2\<lparr> sweepOnGameEnd := False \<rparr>) \<and>
   getValidMoves \<lparr> pits = [[0, 0], [2, 1]], store = [1, 0], toMove = 1, terminal = None \<rparr>
     (kalah2\<lparr> sweepOnGameEnd := False \<rparr>) = [0, 1] \<and>
   alphabeta \<lparr> pits = [[0, 0], [2, 1]], store = [1, 0], toMove = 1, terminal = None \<rparr>
     (kalah2\<lparr> sweepOnGameEnd := False \<rparr>) 1 NegInf PosInf 0 0 0 0 = Fin 5 \<and>
   evalCost \<lparr> pits = [[0, 0], [2, 1]], store = [1, 0], toMove = 1, terminal = None \<rparr>
     (kalah2\<lparr> sweepOnGameEnd := False \<rparr>) 0 0 0 0 = 15"
  by code_simp

text \<open>
  C2 (capture law), as the code has it. For a successful move under the Kalah capture
  rule, a capture happens exactly when the last seed lands in a pit \<open>i\<close> of the mover's
  own side that held no seed before the move and holds exactly one after the sowing
  (the sowing reached it once), and the mirror pit \<open>n - 1 - i\<close> of the opponent holds
  a seed after the sowing. The reported count is that pit's content plus one; both pits
  read zero afterwards; and when no terminal sweep follows, every other pit holds what
  the sowing left there and the mover's store has grown by the seeds sown into it plus
  the reported count. When no capture happens and no sweep follows, every pit holds what
  the sowing left there and the mover's store has grown by the seeds sown into it only.
  The opponent's store is unchanged in both cases.
\<close>

theorem capture_law:
  assumes wf: "wellFormed rules st" and k: "captureRule rules = KALAH"
    and pm: "playMove st rules p = Inr res"
  shows
    "(happened (capture res) \<longleftrightarrow>
        path res \<noteq> [] \<and>
        (\<exists>i. last (path res) = PitLoc (mover res) i \<and> pits st ! mover res ! i = 0 \<and>
             sownPit st (path res) (nat p) (mover res) i = 1 \<and>
             0 < sownPit st (path res) (nat p) (1 - mover res) (pitsPerSide rules - 1 - i))) \<and>
     (happened (capture res) \<longrightarrow>
        (\<exists>i c. last (path res) = PitLoc (mover res) i \<and>
             c = sownPit st (path res) (nat p) (1 - mover res) (pitsPerSide rules - 1 - i) + 1 \<and>
             capture res = \<lparr> happened = True, pit = Some i,
                              oppPit = Some (pitsPerSide rules - 1 - i), captured = Some c \<rparr> \<and>
             pits (state res) ! mover res ! i = 0 \<and>
             pits (state res) ! (1 - mover res) ! (pitsPerSide rules - 1 - i) = 0 \<and>
             (\<not> (MoveResult.terminal res \<and> sweepOnGameEnd rules) \<longrightarrow>
                (\<forall>s<2. \<forall>j<pitsPerSide rules.
                    \<not> (s = mover res \<and> j = i) \<and>
                    \<not> (s = 1 - mover res \<and> j = pitsPerSide rules - 1 - i) \<longrightarrow>
                    pits (state res) ! s ! j = sownPit st (path res) (nat p) s j) \<and>
                store (state res) ! mover res =
                  store st ! mover res + int (count_list (path res) (StoreLoc (mover res))) + c \<and>
                store (state res) ! (1 - mover res) = store st ! (1 - mover res)))) \<and>
     (\<not> happened (capture res) \<and> \<not> (MoveResult.terminal res \<and> sweepOnGameEnd rules) \<longrightarrow>
        (\<forall>s<2. \<forall>j<pitsPerSide rules.
            pits (state res) ! s ! j = sownPit st (path res) (nat p) s j) \<and>
        store (state res) ! mover res =
          store st ! mover res + int (count_list (path res) (StoreLoc (mover res))) \<and>
        store (state res) ! (1 - mover res) = store st ! (1 - mover res))"
proof -
  let ?n = "pitsPerSide rules" and ?who = "toMove st"
  let ?opp = "1 - ?who"
  let ?path = "sowPath st rules ?who (nat p)"
  let ?f = "fold sowStep ?path (setPit (cloneState st) ?who (nat p) 0, None)"
  let ?web = "map (\<lambda>i. pits st ! ?who ! i = 0) [0..<?n]"
  let ?cs = "captureStep rules ?who ?opp ?web (snd ?f) (fst ?f)"
  let ?sp = "sownPit st ?path (nat p)"
  have p: "nat p < ?n" using playMove_Inr[OF pm] by auto
  from playMove_Inr[OF pm]
  have pa: "path res = ?path" and mo: "mover res = ?who"
    and cap: "capture res = snd ?cs"
    by (simp_all add: sowAndCapture_unfold)
  have ns2: "fst (sowAndCapture st rules (nat p)) = fst ?cs"
    by (simp add: sowAndCapture_unfold)
  have who: "?who < 2" using wf by (simp add: wellFormed_def)
  have opp: "?opp < 2" "?opp \<noteq> ?who" using who by (auto dest!: lt2_cases)
  have l1: "snd ?f = (if ?path = [] then None else Some (last ?path))"
    by (rule fold_sowStep_last)
  have sh1: "shaped ?n (fst ?f)" by (rule sown_state(1)[OF wf p])
  have pits1: "\<And>s i. s < 2 \<Longrightarrow> i < ?n \<Longrightarrow> pits (fst ?f) ! s ! i = ?sp s i"
    by (rule sown_state(2)[OF wf p])
  have store1: "\<And>s. s < 2 \<Longrightarrow> store (fst ?f) ! s = store st ! s + int (count_list ?path (StoreLoc s))"
    by (rule sown_state(3)[OF wf p])
  have "StoreLoc ?opp \<notin> set ?path" using sowPath_store[of ?opp st rules ?who "nat p"] opp(2) by blast
  then have store1o: "store (fst ?f) ! ?opp = store st ! ?opp"
    using store1[OF opp(1)] by (simp add: count_list_0_iff)
  have lastv: "\<And>s i. snd ?f = Some (PitLoc s i) \<Longrightarrow> i < ?n"
  proof -
    fix s i assume "snd ?f = Some (PitLoc s i)"
    then have "?path \<noteq> []" "last ?path = PitLoc s i" using l1 by (auto split: if_splits)
    then have "PitLoc s i \<in> set ?path" using last_in_set by metis
    then have "validLoc ?n (PitLoc s i)" by (rule sowPath_valid[OF who])
    then show "i < ?n" by simp
  qed
  have web: "\<And>i. i < ?n \<Longrightarrow> ?web ! i = (pits st ! ?who ! i = 0)" by simp
  have iff: "happened (snd ?cs) \<longleftrightarrow>
        ?path \<noteq> [] \<and>
        (\<exists>i. last ?path = PitLoc ?who i \<and> pits st ! ?who ! i = 0 \<and> ?sp ?who i = 1 \<and>
             0 < ?sp ?opp (?n - 1 - i))"
  proof
    assume "happened (snd ?cs)"
    then obtain i where i: "snd ?f = Some (PitLoc ?who i)" "?web ! i" "pits (fst ?f) ! ?who ! i = 1"
        "0 < pits (fst ?f) ! ?opp ! (?n - 1 - i)"
      unfolding captureStep_happened_iff by blast
    have il: "i < ?n" using lastv[OF i(1)] .
    then have oil: "?n - 1 - i < ?n" by simp
    have "?path \<noteq> []" "last ?path = PitLoc ?who i" using i(1) l1 by (auto split: if_splits)
    moreover have "pits st ! ?who ! i = 0" using i(2) web[OF il] by simp
    moreover have "?sp ?who i = 1" using i(3) pits1[OF who il] by simp
    moreover have "0 < ?sp ?opp (?n - 1 - i)" using i(4) pits1[OF opp(1) oil] by simp
    ultimately show "?path \<noteq> [] \<and>
        (\<exists>i. last ?path = PitLoc ?who i \<and> pits st ! ?who ! i = 0 \<and> ?sp ?who i = 1 \<and>
             0 < ?sp ?opp (?n - 1 - i))" by blast
  next
    assume "?path \<noteq> [] \<and>
        (\<exists>i. last ?path = PitLoc ?who i \<and> pits st ! ?who ! i = 0 \<and> ?sp ?who i = 1 \<and>
             0 < ?sp ?opp (?n - 1 - i))"
    then obtain i where ne: "?path \<noteq> []" and i: "last ?path = PitLoc ?who i" "pits st ! ?who ! i = 0"
        "?sp ?who i = 1" "0 < ?sp ?opp (?n - 1 - i)" by blast
    have l: "snd ?f = Some (PitLoc ?who i)" using l1 ne i(1) by simp
    have il: "i < ?n" using lastv[OF l] .
    then have oil: "?n - 1 - i < ?n" by simp
    have "?web ! i" using i(2) web[OF il] by simp
    moreover have "pits (fst ?f) ! ?who ! i = 1" using i(3) pits1[OF who il] by simp
    moreover have "0 < pits (fst ?f) ! ?opp ! (?n - 1 - i)" using i(4) pits1[OF opp(1) oil] by simp
    ultimately show "happened (snd ?cs)"
      unfolding captureStep_happened_iff using k l by blast
  qed
  have cases: "(fst ?cs = fst ?f \<and> snd ?cs = noCapture) \<or>
         (\<exists>i. snd ?f = Some (PitLoc ?who i) \<and> captureRule rules = KALAH \<and> ?web ! i \<and>
              pits (fst ?f) ! ?who ! i = 1 \<and> pits (fst ?f) ! ?opp ! (?n - 1 - i) > 0 \<and>
              fst ?cs = addStore (setPit (setPit (fst ?f) ?opp (?n - 1 - i) 0) ?who i 0) ?who
                      (pits (fst ?f) ! ?opp ! (?n - 1 - i) + 1) \<and>
              snd ?cs = \<lparr> happened = True, pit = Some i, oppPit = Some (?n - 1 - i),
                      captured = Some (pits (fst ?f) ! ?opp ! (?n - 1 - i) + 1) \<rparr>)"
    by (rule captureStep_cases) simp
  have sh2: "shaped ?n (fst (sowAndCapture st rules (nat p)))"
    using cases sh1 unfolding ns2 by auto
  note unswept = unswept_state[OF pm sh2, unfolded ns2]
  note swept = swept_state[OF pm sh2, unfolded ns2]
  have yes: "happened (snd ?cs) \<longrightarrow>
        (\<exists>i c. last ?path = PitLoc ?who i \<and> c = ?sp ?opp (?n - 1 - i) + 1 \<and>
             snd ?cs = \<lparr> happened = True, pit = Some i, oppPit = Some (?n - 1 - i), captured = Some c \<rparr> \<and>
             pits (state res) ! ?who ! i = 0 \<and>
             pits (state res) ! ?opp ! (?n - 1 - i) = 0 \<and>
             (\<not> (MoveResult.terminal res \<and> sweepOnGameEnd rules) \<longrightarrow>
                (\<forall>s<2. \<forall>j<?n. \<not> (s = ?who \<and> j = i) \<and> \<not> (s = ?opp \<and> j = ?n - 1 - i) \<longrightarrow>
                    pits (state res) ! s ! j = ?sp s j) \<and>
                store (state res) ! ?who = store st ! ?who + int (count_list ?path (StoreLoc ?who)) + c \<and>
                store (state res) ! ?opp = store st ! ?opp))"
  proof
    assume h: "happened (snd ?cs)"
    with cases obtain i where i: "snd ?f = Some (PitLoc ?who i)"
      and f2: "fst ?cs = addStore (setPit (setPit (fst ?f) ?opp (?n - 1 - i) 0) ?who i 0) ?who
                      (pits (fst ?f) ! ?opp ! (?n - 1 - i) + 1)"
      and c2: "snd ?cs = \<lparr> happened = True, pit = Some i, oppPit = Some (?n - 1 - i),
                      captured = Some (pits (fst ?f) ! ?opp ! (?n - 1 - i) + 1) \<rparr>"
      by (auto simp: noCapture_def)
    have il: "i < ?n" using lastv[OF i] .
    then have oil: "?n - 1 - i < ?n" by simp
    have la: "last ?path = PitLoc ?who i" using i l1 by (auto split: if_splits)
    have ce: "pits (fst ?f) ! ?opp ! (?n - 1 - i) + 1 = ?sp ?opp (?n - 1 - i) + 1"
      using pits1[OF opp(1) oil] by simp
    note cst = captured_state[OF sh1 who il oil]
    have pc: "\<And>s j. s < 2 \<Longrightarrow> pits (fst ?cs) ! s ! j =
        (if (s = ?who \<and> j = i) \<or> (s = ?opp \<and> j = ?n - 1 - i) then 0 else pits (fst ?f) ! s ! j)"
      unfolding f2 by (rule cst(1))
    have sc1: "store (fst ?cs) ! ?who = store (fst ?f) ! ?who + (pits (fst ?f) ! ?opp ! (?n - 1 - i) + 1)"
      unfolding f2 by (rule cst(2))
    have sc2: "store (fst ?cs) ! ?opp = store (fst ?f) ! ?opp"
      unfolding f2 by (rule cst(3))
    have z1: "pits (fst ?cs) ! ?who ! i = 0" using pc[OF who, of i] by simp
    have z2: "pits (fst ?cs) ! ?opp ! (?n - 1 - i) = 0" using pc[OF opp(1), of "?n - 1 - i"] by simp
    have zz: "pits (state res) ! ?who ! i = 0 \<and> pits (state res) ! ?opp ! (?n - 1 - i) = 0"
    proof (cases "MoveResult.terminal res \<and> sweepOnGameEnd rules")
      case True
      have "pits (state res) ! ?who = replicate ?n 0" "pits (state res) ! ?opp = replicate ?n 0"
        using swept(1)[OF True] who opp(1) by (auto dest!: lt2_cases)
      then show ?thesis using il oil by simp
    next
      case False
      then show ?thesis using unswept(1) z1 z2 by simp
    qed
    have rest: "\<not> (MoveResult.terminal res \<and> sweepOnGameEnd rules) \<longrightarrow>
                (\<forall>s<2. \<forall>j<?n. \<not> (s = ?who \<and> j = i) \<and> \<not> (s = ?opp \<and> j = ?n - 1 - i) \<longrightarrow>
                    pits (state res) ! s ! j = ?sp s j) \<and>
                store (state res) ! ?who = store st ! ?who + int (count_list ?path (StoreLoc ?who)) +
                   (?sp ?opp (?n - 1 - i) + 1) \<and>
                store (state res) ! ?opp = store st ! ?opp"
    proof
      assume ns: "\<not> (MoveResult.terminal res \<and> sweepOnGameEnd rules)"
      have a: "\<forall>s<2. \<forall>j<?n. \<not> (s = ?who \<and> j = i) \<and> \<not> (s = ?opp \<and> j = ?n - 1 - i) \<longrightarrow>
                    pits (state res) ! s ! j = ?sp s j"
      proof (intro allI impI)
        fix s j assume s: "s < 2" and j: "j < ?n"
          and o: "\<not> (s = ?who \<and> j = i) \<and> \<not> (s = ?opp \<and> j = ?n - 1 - i)"
        have "pits (fst ?cs) ! s ! j = pits (fst ?f) ! s ! j"
          using pc[OF s, of j] o by auto
        then show "pits (state res) ! s ! j = ?sp s j"
          using unswept(1)[OF ns] pits1[OF s j] by simp
      qed
      have b: "store (state res) ! ?who = store st ! ?who + int (count_list ?path (StoreLoc ?who)) +
                   (?sp ?opp (?n - 1 - i) + 1)"
        using unswept(2)[OF ns] sc1 store1[OF who] ce by simp
      have c: "store (state res) ! ?opp = store st ! ?opp"
        using unswept(2)[OF ns] sc2 store1o by simp
      from a b c show "(\<forall>s<2. \<forall>j<?n. \<not> (s = ?who \<and> j = i) \<and> \<not> (s = ?opp \<and> j = ?n - 1 - i) \<longrightarrow>
                    pits (state res) ! s ! j = ?sp s j) \<and>
                store (state res) ! ?who = store st ! ?who + int (count_list ?path (StoreLoc ?who)) +
                   (?sp ?opp (?n - 1 - i) + 1) \<and>
                store (state res) ! ?opp = store st ! ?opp" by blast
    qed
    from la c2 ce zz rest
    show "\<exists>i c. last ?path = PitLoc ?who i \<and> c = ?sp ?opp (?n - 1 - i) + 1 \<and>
             snd ?cs = \<lparr> happened = True, pit = Some i, oppPit = Some (?n - 1 - i), captured = Some c \<rparr> \<and>
             pits (state res) ! ?who ! i = 0 \<and>
             pits (state res) ! ?opp ! (?n - 1 - i) = 0 \<and>
             (\<not> (MoveResult.terminal res \<and> sweepOnGameEnd rules) \<longrightarrow>
                (\<forall>s<2. \<forall>j<?n. \<not> (s = ?who \<and> j = i) \<and> \<not> (s = ?opp \<and> j = ?n - 1 - i) \<longrightarrow>
                    pits (state res) ! s ! j = ?sp s j) \<and>
                store (state res) ! ?who = store st ! ?who + int (count_list ?path (StoreLoc ?who)) + c \<and>
                store (state res) ! ?opp = store st ! ?opp)"
      by (intro exI[of _ i] exI[of _ "?sp ?opp (?n - 1 - i) + 1"]) simp
  qed
  have no: "\<not> happened (snd ?cs) \<and> \<not> (MoveResult.terminal res \<and> sweepOnGameEnd rules) \<longrightarrow>
        (\<forall>s<2. \<forall>j<?n. pits (state res) ! s ! j = ?sp s j) \<and>
        store (state res) ! ?who = store st ! ?who + int (count_list ?path (StoreLoc ?who)) \<and>
        store (state res) ! ?opp = store st ! ?opp"
  proof
    assume a: "\<not> happened (snd ?cs) \<and> \<not> (MoveResult.terminal res \<and> sweepOnGameEnd rules)"
    then have e: "fst ?cs = fst ?f" using cases by auto
    from a have ns: "\<not> (MoveResult.terminal res \<and> sweepOnGameEnd rules)" by simp
    show "(\<forall>s<2. \<forall>j<?n. pits (state res) ! s ! j = ?sp s j) \<and>
        store (state res) ! ?who = store st ! ?who + int (count_list ?path (StoreLoc ?who)) \<and>
        store (state res) ! ?opp = store st ! ?opp"
    proof -
      have pe: "pits (state res) = pits (fst ?f)" using unswept(1)[OF ns] by (simp only: e)
      have se: "store (state res) = store (fst ?f)" using unswept(2)[OF ns] by (simp only: e)
      show ?thesis using pits1 store1[OF who] store1o by (simp add: pe se)
    qed
  qed
  show ?thesis
    unfolding pa mo cap using iff yes no by blast
qed

text \<open>
  The capture of the specification's second scenario: the single seed of pit 0 lands in
  the empty pit 1, whose mirror pit holds 5 seeds; 6 seeds are captured.
\<close>

theorem capture_law_witness:
  "wellFormed (kalah2\<lparr> pitsPerSide := 3 \<rparr>)
     \<lparr> pits = [[1, 0, 3], [0, 5, 1]], store = [1, 0], toMove = 0, terminal = None \<rparr> \<and>
   playMove \<lparr> pits = [[1, 0, 3], [0, 5, 1]], store = [1, 0], toMove = 0, terminal = None \<rparr>
       (kalah2\<lparr> pitsPerSide := 3 \<rparr>) 0 =
     Inr \<lparr> state = \<lparr> pits = [[0, 0, 3], [0, 0, 1]], store = [7, 0], toMove = 1, terminal = None \<rparr>,
           path = [PitLoc 0 1], mover = 0, pitIndex = 0, extraTurn = False,
           capture = \<lparr> happened = True, pit = Some 1, oppPit = Some 1, captured = Some 6 \<rparr>,
           terminal = False \<rparr> \<and>
   (\<exists>i. last [PitLoc 0 1] = PitLoc 0 i \<and>
        sownPit \<lparr> pits = [[1, 0, 3], [0, 5, 1]], store = [1, 0], toMove = 0, terminal = None \<rparr>
          [PitLoc 0 1] 0 0 i = 1 \<and>
        0 < sownPit \<lparr> pits = [[1, 0, 3], [0, 5, 1]], store = [1, 0], toMove = 0, terminal = None \<rparr>
              [PitLoc 0 1] 0 1 (3 - 1 - i))"
proof -
  let ?s = "\<lparr> pits = [[1, 0, 3], [0, 5, 1]], store = [1, 0], toMove = 0, terminal = None \<rparr> :: int GameState"
  let ?r = "kalah2\<lparr> pitsPerSide := 3 \<rparr>"
  have w: "wellFormed ?r ?s" by code_simp
  have k: "captureRule ?r = KALAH" by (simp add: kalah2_def)
  have e: "playMove ?s ?r 0 =
     Inr \<lparr> state = \<lparr> pits = [[0, 0, 3], [0, 0, 1]], store = [7, 0], toMove = 1, terminal = None \<rparr>,
           path = [PitLoc 0 1], mover = 0, pitIndex = 0, extraTurn = False,
           capture = \<lparr> happened = True, pit = Some 1, oppPit = Some 1, captured = Some 6 \<rparr>,
           terminal = False \<rparr>"
    by code_simp
  have n: "pitsPerSide ?r = 3" by (simp add: kalah2_def)
  from capture_law[OF w k e]
  have "\<exists>i. last [PitLoc 0 1] = PitLoc 0 i \<and> sownPit ?s [PitLoc 0 1] 0 0 i = 1 \<and>
        0 < sownPit ?s [PitLoc 0 1] 0 1 (3 - 1 - i)"
    by (simp add: n)
  with w e show ?thesis by simp
qed

text \<open>
  The claim as stated fails on a position reached in play (two pits per side, four
  seeds per pit, after the moves 1, 0, 1). The six seeds of pit 0 go once round the
  board and the last one lands in the mover's pit 1, which was empty before the move;
  the mirror pit of the opponent held a seed before the move and holds two after the
  sowing. Pit 1 holds two seeds, not one, and nothing is captured.
\<close>

theorem capture_law_counterexample:
  "playLine (initStandard (kalah2\<lparr> seedsPerPit := 4 \<rparr>) 0) (kalah2\<lparr> seedsPerPit := 4 \<rparr>) [1, 0, 1] =
     Some [\<lparr> pits = [[4, 4], [4, 4]], store = [0, 0], toMove = 0, terminal = None \<rparr>,
           \<lparr> pits = [[5, 0], [5, 5]], store = [1, 0], toMove = 1, terminal = None \<rparr>,
           \<lparr> pits = [[6, 1], [1, 6]], store = [1, 1], toMove = 0, terminal = None \<rparr>,
           \<lparr> pits = [[6, 0], [1, 6]], store = [2, 1], toMove = 0, terminal = None \<rparr>] \<and>
   captureRule (kalah2\<lparr> seedsPerPit := 4 \<rparr>) = KALAH \<and>
   playMove \<lparr> pits = [[6, 0], [1, 6]], store = [2, 1], toMove = 0, terminal = None \<rparr>
       (kalah2\<lparr> seedsPerPit := 4 \<rparr>) 0 =
     Inr \<lparr> state = \<lparr> pits = [[1, 2], [2, 7]], store = [3, 1], toMove = 1, terminal = None \<rparr>,
           path = [PitLoc 0 1, StoreLoc 0, PitLoc 1 0, PitLoc 1 1, PitLoc 0 0, PitLoc 0 1],
           mover = 0, pitIndex = 0, extraTurn = False,
           capture = \<lparr> happened = False, pit = None, oppPit = None, captured = None \<rparr>,
           terminal = False \<rparr> \<and>
   pits \<lparr> pits = [[6, 0], [1, 6]], store = [2, 1], toMove = 0, terminal = None \<rparr> ! 0 ! 1 = (0 :: int) \<and>
   (0 :: int) < pits \<lparr> pits = [[6, 0], [1, 6]], store = [2, 1], toMove = 0, terminal = None \<rparr> ! 1 ! (2 - 1 - 1)"
  by code_simp

text \<open>
  C6 (top-level recommendation), as the code has it. When the state has a legal move,
  \<open>bestMove\<close> searches every candidate in heuristic order, each on the state it leads
  to and at depth \<open>searchDepth - 1\<close>. The upper bound of every call is unbounded. The
  lower bound is unbounded for the first candidate only: every later call receives the
  greatest value returned so far. \<open>repRoot\<close> is 1 exactly when the candidate earns an
  extra turn. The score returned is the greatest of the values the calls returned, and
  the move returned is the first candidate whose call returned that value. The raised
  lower bound changes no recommendation: the score is also the greatest full-window
  score of the candidates, and the move is the first candidate in heuristic order
  that has it.
\<close>

theorem bestMove_root_law:
  assumes "wellFormed rules st" and "getValidMoves st rules \<noteq> []"
  shows
    "map rcMove (rootCalls st rules depth) = orderMoves st rules (getValidMoves st rules) \<and>
     rcAlpha (rootCalls st rules depth ! 0) = NegInf \<and>
     (\<forall>k<length (rootCalls st rules depth).
        rcAlpha (rootCalls st rules depth ! k) =
          fold max (map rcVal (take k (rootCalls st rules depth))) NegInf \<and>
        rcBeta (rootCalls st rules depth ! k) = PosInf \<and>
        (\<exists>res. playMove st rules (int (rcMove (rootCalls st rules depth ! k))) = Inr res \<and>
           (rcRepRoot (rootCalls st rules depth ! k) = 1 \<longleftrightarrow> extraTurn res) \<and>
           (rcRepRoot (rootCalls st rules depth ! k) = 0 \<longleftrightarrow> \<not> extraTurn res) \<and>
           rcVal (rootCalls st rules depth ! k) =
             alphabeta (state res) rules ((if depth \<le> 0 then 1 else depth) - 1)
               (rcAlpha (rootCalls st rules depth ! k)) PosInf
               (toMove st) (store st ! toMove st) (store st ! (1 - toMove st))
               (rcRepRoot (rootCalls st rules depth ! k)))) \<and>
     hasMove (bestMove st rules depth) \<and>
     score (bestMove st rules depth) = fold max (map rcVal (rootCalls st rules depth)) NegInf \<and>
     (\<forall>k<length (rootCalls st rules depth).
        rcVal (rootCalls st rules depth ! k) = score (bestMove st rules depth) \<and>
        NegInf < rcVal (rootCalls st rules depth ! k) \<and>
        (\<forall>j<k. rcVal (rootCalls st rules depth ! j) < rcVal (rootCalls st rules depth ! k)) \<longrightarrow>
        move (bestMove st rules depth) = int (rcMove (rootCalls st rules depth ! k))) \<and>
     score (bestMove st rules depth) =
       fold max (map (candidateScore st rules depth) (orderMoves st rules (getValidMoves st rules))) NegInf \<and>
     (\<forall>k<length (orderMoves st rules (getValidMoves st rules)).
        candidateScore st rules depth (orderMoves st rules (getValidMoves st rules) ! k) =
          score (bestMove st rules depth) \<and>
        NegInf < candidateScore st rules depth (orderMoves st rules (getValidMoves st rules) ! k) \<and>
        (\<forall>j<k. candidateScore st rules depth (orderMoves st rules (getValidMoves st rules) ! j) <
               candidateScore st rules depth (orderMoves st rules (getValidMoves st rules) ! k)) \<longrightarrow>
        move (bestMove st rules depth) = int (orderMoves st rules (getValidMoves st rules) ! k))"
proof -
  let ?calls = "rootCalls st rules depth"
  let ?ord = "orderMoves st rules (getValidMoves st rules)"
  let ?t = "\<lambda>c. candidateScore st rules depth (rcMove c)"
  note old = bestMove_calls_law[OF assms, of depth]
  note f = bestMoveRun_facts[OF assms(2), of depth]
  have m: "map rcMove ?calls = ?ord" using old by (rule conjunct1)
  have len: "length ?calls = length ?ord" using arg_cong[OF m, of length] by simp
  have nth: "\<And>k. k < length ?ord \<Longrightarrow> rcMove (?calls ! k) = ?ord ! k"
    using arg_cong[OF m, of "\<lambda>xs. xs ! k" for k] len by (metis nth_map)
  have mt: "map ?t ?calls = map (candidateScore st rules depth) ?ord"
    unfolding m[symmetric] by simp
  have chain: "\<forall>k<length ?calls. rcAlpha (?calls ! k) = fold max (map rcVal (take k ?calls)) NegInf"
    by (rule f(5))
  have win: "\<forall>c\<in>set ?calls. rcAlpha c < PosInf \<longrightarrow> inWindow (rcAlpha c) PosInf (?t c) (rcVal c)"
  proof
    fix c assume "c \<in> set ?calls"
    with f(4) have "rootCallOK st rules (if depth \<le> 0 then 1 else depth) c" by (rule bspec)
    then show "rcAlpha c < PosInf \<longrightarrow> inWindow (rcAlpha c) PosInf (?t c) (rcVal c)"
      by (rule rootCallOK_window)
  qed
  have sc0: "score (bestMove st rules depth) = fold max (map rcVal ?calls) NegInf"
    by (rule old[THEN conjunct2, THEN conjunct2, THEN conjunct2, THEN conjunct2, THEN conjunct1])
  have mvk: "\<forall>k<length ?calls.
        rcVal (?calls ! k) = score (bestMove st rules depth) \<and> NegInf < rcVal (?calls ! k) \<and>
        (\<forall>j<k. rcVal (?calls ! j) < rcVal (?calls ! k)) \<longrightarrow>
        move (bestMove st rules depth) = int (rcMove (?calls ! k))"
    by (rule old[THEN conjunct2, THEN conjunct2, THEN conjunct2, THEN conjunct2, THEN conjunct2])
  have agree: "fold max (map rcVal ?calls) NegInf = fold max (map ?t ?calls) NegInf"
    using prefix_max_agree[OF chain win, of "length ?calls"] by simp
  have sc: "score (bestMove st rules depth) = fold max (map (candidateScore st rules depth) ?ord) NegInf"
    unfolding sc0 agree mt ..
  have mv: "\<forall>k<length ?ord.
        candidateScore st rules depth (?ord ! k) = score (bestMove st rules depth) \<and>
        NegInf < candidateScore st rules depth (?ord ! k) \<and>
        (\<forall>j<k. candidateScore st rules depth (?ord ! j) < candidateScore st rules depth (?ord ! k)) \<longrightarrow>
        move (bestMove st rules depth) = int (?ord ! k)"
  proof (intro allI impI)
    fix k assume k: "k < length ?ord"
      and h: "candidateScore st rules depth (?ord ! k) = score (bestMove st rules depth) \<and>
        NegInf < candidateScore st rules depth (?ord ! k) \<and>
        (\<forall>j<k. candidateScore st rules depth (?ord ! j) < candidateScore st rules depth (?ord ! k))"
    have kc: "k < length ?calls" using k len by simp
    from h have h1: "candidateScore st rules depth (?ord ! k) = score (bestMove st rules depth)"
      by (rule conjunct1)
    from h have h2: "NegInf < candidateScore st rules depth (?ord ! k)"
      by (rule conjunct1[OF conjunct2])
    from h have h3: "\<forall>j<k. candidateScore st rules depth (?ord ! j) < candidateScore st rules depth (?ord ! k)"
      by (rule conjunct2[OF conjunct2])
    have e: "?t (?calls ! k) = candidateScore st rules depth (?ord ! k)"
      by (simp only: nth[OF k])
    have t1: "?t (?calls ! k) = fold max (map ?t ?calls) NegInf"
      unfolding e h1 sc mt ..
    have t2: "NegInf < ?t (?calls ! k)" unfolding e by (rule h2)
    have t3: "\<forall>j<k. ?t (?calls ! j) < ?t (?calls ! k)"
    proof (intro allI impI)
      fix j assume j: "j < k"
      then have jl: "j < length ?ord" using k by simp
      have ej: "?t (?calls ! j) = candidateScore st rules depth (?ord ! j)"
        by (simp only: nth[OF jl])
      show "?t (?calls ! j) < ?t (?calls ! k)" unfolding e ej using h3 j by blast
    qed
    from first_max_agree[OF chain win kc t1 t2 t3]
    have "rcVal (?calls ! k) = score (bestMove st rules depth) \<and> NegInf < rcVal (?calls ! k) \<and>
        (\<forall>j<k. rcVal (?calls ! j) < rcVal (?calls ! k))"
      unfolding sc0 .
    with mvk kc have "move (bestMove st rules depth) = int (rcMove (?calls ! k))" by blast
    then show "move (bestMove st rules depth) = int (?ord ! k)" using nth[OF k] by simp
  qed
  note o2 = old[THEN conjunct2, THEN conjunct1]
  note o3 = old[THEN conjunct2, THEN conjunct2, THEN conjunct1]
  note o4 = old[THEN conjunct2, THEN conjunct2, THEN conjunct2, THEN conjunct1]
  note o5 = old[THEN conjunct2, THEN conjunct2, THEN conjunct2, THEN conjunct2, THEN conjunct1]
  note o6 = old[THEN conjunct2, THEN conjunct2, THEN conjunct2, THEN conjunct2, THEN conjunct2]
  show ?thesis
    by (intro conjI m o2 o3 o4 o5 o6 sc mv)
qed

text \<open>
  The opening position of the standard game at depth 1: six candidates are searched,
  the fourth one (pit 5) returns the greatest value and is recommended.
\<close>

theorem bestMove_root_law_witness:
  "wellFormed kalah6 (initStandard kalah6 0) \<and>
   getValidMoves (initStandard kalah6 0) kalah6 = [0, 1, 2, 3, 4, 5] \<and>
   map rcVal (rootCalls (initStandard kalah6 0) kalah6 1) = [Fin 11, Fin 10, Fin 10, Fin 15, Fin 0, Fin 0] \<and>
   map rcMove (rootCalls (initStandard kalah6 0) kalah6 1) = [2, 3, 4, 5, 0, 1] \<and>
   score (bestMove (initStandard kalah6 0) kalah6 1) = Fin 15 \<and>
   move (bestMove (initStandard kalah6 0) kalah6 1) = 5"
proof -
  let ?st = "initStandard kalah6 0"
  let ?calls = "rootCalls ?st kalah6 1"
  have w: "wellFormed kalah6 ?st" by code_simp
  have g: "getValidMoves ?st kalah6 = [0, 1, 2, 3, 4, 5]" by code_simp
  then have ne: "getValidMoves ?st kalah6 \<noteq> []" by simp
  have vals: "map rcVal ?calls = [Fin 11, Fin 10, Fin 10, Fin 15, Fin 0, Fin 0]" by code_simp
  have mvs: "map rcMove ?calls = [2, 3, 4, 5, 0, 1]" by code_simp
  have len: "length ?calls = 6" using arg_cong[OF vals, of length] by simp
  have v: "rcVal (?calls ! 0) = Fin 11" "rcVal (?calls ! 1) = Fin 10" "rcVal (?calls ! 2) = Fin 10"
    "rcVal (?calls ! 3) = Fin 15"
    using arg_cong[OF vals, of "\<lambda>xs. xs ! 0"] arg_cong[OF vals, of "\<lambda>xs. xs ! 1"]
      arg_cong[OF vals, of "\<lambda>xs. xs ! 2"] arg_cong[OF vals, of "\<lambda>xs. xs ! 3"] len
    by simp_all
  have m3: "rcMove (?calls ! 3) = 5" using arg_cong[OF mvs, of "\<lambda>xs. xs ! 3"] len by simp
  note law = bestMove_root_law[OF w ne, of 1]
  from law have sc: "score (bestMove ?st kalah6 1) = fold max (map rcVal ?calls) NegInf" by blast
  have fm: "fold max [Fin 11, Fin 10, Fin 10, Fin 15, Fin 0, Fin 0] NegInf = Fin 15" by code_simp
  have sc': "score (bestMove ?st kalah6 1) = Fin 15" unfolding sc vals fm ..
  from law have "\<forall>k<length ?calls.
        rcVal (?calls ! k) = score (bestMove ?st kalah6 1) \<and> NegInf < rcVal (?calls ! k) \<and>
        (\<forall>j<k. rcVal (?calls ! j) < rcVal (?calls ! k)) \<longrightarrow>
        move (bestMove ?st kalah6 1) = int (rcMove (?calls ! k))" by blast
  then have "3 < length ?calls \<longrightarrow>
        rcVal (?calls ! 3) = score (bestMove ?st kalah6 1) \<and> NegInf < rcVal (?calls ! 3) \<and>
        (\<forall>j<3. rcVal (?calls ! j) < rcVal (?calls ! 3)) \<longrightarrow>
        move (bestMove ?st kalah6 1) = int (rcMove (?calls ! 3))" by (rule spec)
  moreover have "\<forall>j<3. rcVal (?calls ! j) < rcVal (?calls ! 3)"
  proof (intro allI impI)
    fix j :: nat assume "j < 3"
    then have "j = 0 \<or> j = 1 \<or> j = 2" by auto
    then show "rcVal (?calls ! j) < rcVal (?calls ! 3)"
      using v by (auto simp: less_Score_def)
  qed
  moreover have "NegInf < rcVal (?calls ! 3)" using v by (simp add: less_Score_def)
  ultimately have mv: "move (bestMove ?st kalah6 1) = 5" using len sc' v m3 by simp
  from w g vals mvs sc' mv show ?thesis by (intro conjI)
qed

text \<open>
  The claim as stated fails on the opening position of the standard game: the second
  candidate (pit 3) is searched with the lower bound 11, the value of the first, and
  the last two with the lower bound 15.
\<close>

theorem bestMove_root_law_counterexample:
  "rootCalls (initStandard kalah6 0) kalah6 1 =
     [\<lparr> rcMove = 2, rcAlpha = NegInf, rcBeta = PosInf, rcRepRoot = 1, rcVal = Fin 11 \<rparr>,
      \<lparr> rcMove = 3, rcAlpha = Fin 11, rcBeta = PosInf, rcRepRoot = 0, rcVal = Fin 10 \<rparr>,
      \<lparr> rcMove = 4, rcAlpha = Fin 11, rcBeta = PosInf, rcRepRoot = 0, rcVal = Fin 10 \<rparr>,
      \<lparr> rcMove = 5, rcAlpha = Fin 11, rcBeta = PosInf, rcRepRoot = 0, rcVal = Fin 15 \<rparr>,
      \<lparr> rcMove = 0, rcAlpha = Fin 15, rcBeta = PosInf, rcRepRoot = 0, rcVal = Fin 0 \<rparr>,
      \<lparr> rcMove = 1, rcAlpha = Fin 15, rcBeta = PosInf, rcRepRoot = 0, rcVal = Fin 0 \<rparr>] \<and>
   rcAlpha (rootCalls (initStandard kalah6 0) kalah6 1 ! 1) \<noteq> NegInf"
  by code_simp








end
